theory Spec2Isabelle
  imports Main
begin

section \<open>Data model of thread.cpp\<close>

text \<open>
  Objects are named by their addresses. A pointer is an optional address, \<open>None\<close> being
  \<open>nullptr\<close>. The heap of \<open>thread::impl\<close> objects, the user-visible \<open>thread\<close> handles,
  the \<open>mutex::impl\<close> and the \<open>cv::impl\<close> objects are partial maps from addresses;
  \<open>delete\<close> removes an address from its map.
\<close>

type_synonym tid = nat
type_synonym hid = nat
type_synonym cid = nat
type_synonym mid = nat
type_synonym vid = nat

text \<open>A non-null \<open>thread_startfunc_t\<close>: either \<open>idle_func\<close> or some user function.\<close>

datatype startfunc = Idle_func | User_func nat

text \<open>
  The places of thread.cpp that call \<open>cpu::impl::run_next\<close>. A context saved by
  \<open>swapcontext\<close> inside \<open>run_next\<close> resumes after that call; what runs next is the rest
  of the caller. The saved stack holds the mutex of \<open>mutex::impl::lock\<close> (called from
  \<open>mutex::lock\<close> or, to lock again, from \<open>cv::impl::wait\<close>) and the mutex argument of
  \<open>cv::impl::wait\<close>.
\<close>

datatype call_site =
    Site_init
  | Site_idle
  | Site_timer
  | Site_exit
  | Site_join
  | Site_yield
  | Site_mutex_lock mid
  | Site_cv_wait mid
  | Site_cv_relock mid

text \<open>
  The field \<open>uc\<close>: \<open>Entry fn\<close> is the context built by \<open>makecontext\<close>, which calls
  \<open>thread_start(fn, arg)\<close>; \<open>Saved site\<close> is a context saved by \<open>swapcontext\<close>.
\<close>

datatype ucontext = Entry startfunc | Saved call_site

record thread_impl =
  parent :: "hid option"
  uc :: ucontext
  join_thd :: "tid option list"

record mutex_impl =
  own_thd :: "tid option"
  thd_q :: "tid option list"

datatype exn = Runtime_error string

datatype ub = Empty_queue_front | Null_pointer | Dangling_pointer | Exited_thread_resumed

datatype switch = Swapcontext tid tid | Setcontext tid

record state =
  guard :: bool
  interrupts :: "cid \<Rightarrow> bool"
  ready_queue :: "tid option list"
  idle_queue :: "tid option list"
  suspended_queue :: "cid list"
  last_free_thread :: "tid option"
  current_thd :: "cid \<Rightarrow> tid option"
  threads :: "tid \<rightharpoonup> thread_impl"
  handles :: "hid \<rightharpoonup> tid option"
  mutexes :: "mid \<rightharpoonup> mutex_impl"
  cvs :: "vid \<rightharpoonup> tid option list"
  ipi_sent :: "cid list"
  switches :: "switch list"

text \<open>
  How a piece of code running on one CPU ends: it returns, it throws a C++ exception,
  it has switched the CPU to another thread (the guard still held, the rest of the caller
  pending in the saved context), or it has undefined behaviour.
\<close>

datatype outcome = Returned state | Threw exn state | Switched state | Undefined ub

definition then_do :: "outcome \<Rightarrow> (state \<Rightarrow> outcome) \<Rightarrow> outcome" where
  "then_do r f = (case r of Returned s \<Rightarrow> f s | Threw e s \<Rightarrow> Threw e s
                   | Switched s \<Rightarrow> Switched s | Undefined u \<Rightarrow> Undefined u)"

section \<open>The guard\<close>

text \<open>\<open>while (guard.exchange(1, std::memory_order_seq_cst));\<close>\<close>

partial_function (option) spin :: "state \<Rightarrow> state option" where
  "spin s = (if guard s then spin (s\<lparr>guard := True\<rparr>) else Some (s\<lparr>guard := True\<rparr>))"

definition lock :: "cid \<Rightarrow> state \<Rightarrow> state option" where
  "lock c s = spin (s\<lparr>interrupts := (interrupts s)(c := False)\<rparr>)"

definition unlock :: "cid \<Rightarrow> state \<Rightarrow> state" where
  "unlock c s = s\<lparr>guard := False, interrupts := (interrupts s)(c := True)\<rparr>"

text \<open>
  A scope holding a \<open>cpu::impl::lock_guard\<close>: the destructor runs when the body returns
  and when it throws. When the body has switched to another thread the destructor has not
  run yet.
\<close>

definition lock_guard :: "cid \<Rightarrow> (state \<Rightarrow> outcome) \<Rightarrow> state \<Rightarrow> outcome option" where
  "lock_guard c body s =
     (case lock c s of
        None \<Rightarrow> None
      | Some s1 \<Rightarrow> Some (case body s1 of
            Returned s2 \<Rightarrow> Returned (unlock c s2)
          | Threw e s2 \<Rightarrow> Threw e (unlock c s2)
          | Switched s2 \<Rightarrow> Switched s2
          | Undefined u \<Rightarrow> Undefined u))"

section \<open>Scheduler\<close>

definition wakeup_one_cpu :: "state \<Rightarrow> state" where
  "wakeup_one_cpu s =
     (if ready_queue s \<noteq> [] \<and> suspended_queue s \<noteq> []
      then s\<lparr>ipi_sent := ipi_sent s @ [hd (suspended_queue s)],
             suspended_queue := tl (suspended_queue s)\<rparr>
      else s)"

definition current :: "cid \<Rightarrow> state \<Rightarrow> tid option" where
  "current c s = current_thd s c"

text \<open>
  The switch at the end of \<open>run_next\<close>: \<open>swapcontext(&old_thd->uc, &cur_thd->uc)\<close> when
  \<open>old_thd\<close> is not null, \<open>setcontext(&cur_thd->uc)\<close> otherwise.
\<close>

definition switch_context :: "call_site \<Rightarrow> tid option \<Rightarrow> tid option \<Rightarrow> state \<Rightarrow> outcome" where
  "switch_context site old_thd cur_thd s =
     (case cur_thd of
        None \<Rightarrow> Undefined Null_pointer
      | Some n \<Rightarrow>
          (case threads s n of
             None \<Rightarrow> Undefined Dangling_pointer
           | Some ni \<Rightarrow>
               (case old_thd of
                  None \<Rightarrow> Switched (s\<lparr>switches := switches s @ [Setcontext n]\<rparr>)
                | Some ot \<Rightarrow>
                    (case threads s ot of
                       None \<Rightarrow> Undefined Dangling_pointer
                     | Some oi \<Rightarrow>
                         Switched (s\<lparr>threads := (threads s)(ot \<mapsto> oi\<lparr>uc := Saved site\<rparr>),
                                     switches := switches s @ [Swapcontext ot n]\<rparr>)))))"

text \<open>
  \<open>cpu::impl::run_next\<close> up to and including the switch. \<open>front()\<close> of an empty
  \<open>std::queue\<close> is undefined.
\<close>

definition run_next :: "call_site \<Rightarrow> cid \<Rightarrow> state \<Rightarrow> outcome" where
  "run_next site c s =
     (let old_thd = current c s in
      if ready_queue s \<noteq> []
      then switch_context site old_thd (hd (ready_queue s))
             (s\<lparr>current_thd := (current_thd s)(c := hd (ready_queue s)),
                ready_queue := tl (ready_queue s)\<rparr>)
      else if idle_queue s \<noteq> []
      then switch_context site old_thd (hd (idle_queue s))
             (s\<lparr>current_thd := (current_thd s)(c := hd (idle_queue s)),
                idle_queue := tl (idle_queue s)\<rparr>)
      else Undefined Empty_queue_front)"

text \<open>
  \<open>delete last_free_thread; last_free_thread = nullptr;\<close> with the destructor
  \<open>thread::impl::~impl\<close>, which writes \<open>nullptr\<close> to \<open>parent->impl_ptr\<close> when \<open>parent\<close>
  is not null.
\<close>

definition impl_dtor :: "tid \<Rightarrow> state \<Rightarrow> outcome" where
  "impl_dtor t s =
     (case threads s t of
        None \<Rightarrow> Undefined Dangling_pointer
      | Some ti \<Rightarrow>
          (case parent ti of
             None \<Rightarrow> Returned (s\<lparr>threads := (threads s)(t := None)\<rparr>)
           | Some h \<Rightarrow>
               (case handles s h of
                  None \<Rightarrow> Undefined Dangling_pointer
                | Some p \<Rightarrow> Returned (s\<lparr>handles := (handles s)(h \<mapsto> None),
                                         threads := (threads s)(t := None)\<rparr>))))"

definition reclaim :: "state \<Rightarrow> outcome" where
  "reclaim s =
     then_do (case last_free_thread s of None \<Rightarrow> Returned s | Some t \<Rightarrow> impl_dtor t s)
       (\<lambda>s1. Returned (s1\<lparr>last_free_thread := None\<rparr>))"

section \<open>Thread lifecycle\<close>

text \<open>
  \<open>thread::impl::impl(thread* p, thread_startfunc_t fn, void* arg)\<close>, run by
  \<open>new thread::impl{...}\<close> on the storage at address \<open>a\<close>. When the constructor throws,
  the new-expression releases the storage and no object exists.
\<close>

definition impl_ctor :: "hid option \<Rightarrow> startfunc option \<Rightarrow> tid \<Rightarrow> state \<Rightarrow> outcome" where
  "impl_ctor p fn a s =
     (case fn of
        None \<Rightarrow> Threw (Runtime_error ''nullptr function'') s
      | Some f \<Rightarrow>
          (let s1 = s\<lparr>threads := (threads s)(a \<mapsto> \<lparr>parent = p, uc = Entry f, join_thd = []\<rparr>)\<rparr> in
           if f = Idle_func
           then Returned (s1\<lparr>idle_queue := idle_queue s1 @ [Some a]\<rparr>)
           else Returned (wakeup_one_cpu (s1\<lparr>ready_queue := ready_queue s1 @ [Some a]\<rparr>))))"

text \<open>\<open>thread::thread(thread_startfunc_t fn, void* arg)\<close> for the handle at address \<open>h\<close>.\<close>

definition ctor_body :: "hid \<Rightarrow> startfunc option \<Rightarrow> tid \<Rightarrow> state \<Rightarrow> outcome" where
  "ctor_body h fn a s =
     then_do (impl_ctor (Some h) fn a s)
       (\<lambda>s1. Returned (s1\<lparr>handles := (handles s1)(h \<mapsto> Some a)\<rparr>))"

definition thread_ctor :: "hid \<Rightarrow> startfunc option \<Rightarrow> tid \<Rightarrow> cid \<Rightarrow> state \<Rightarrow> outcome option" where
  "thread_ctor h fn a c s = lock_guard c (ctor_body h fn a) s"

text \<open>\<open>thread::~thread()\<close>; the handle's lifetime ends with it.\<close>

definition dtor_body :: "hid \<Rightarrow> state \<Rightarrow> outcome" where
  "dtor_body h s =
     (case handles s h of
        None \<Rightarrow> Undefined Dangling_pointer
      | Some None \<Rightarrow> Returned (s\<lparr>handles := (handles s)(h := None)\<rparr>)
      | Some (Some t) \<Rightarrow>
          (case threads s t of
             None \<Rightarrow> Undefined Dangling_pointer
           | Some ti \<Rightarrow> Returned (s\<lparr>threads := (threads s)(t \<mapsto> ti\<lparr>parent := None\<rparr>),
                                     handles := (handles s)(h := None)\<rparr>)))"

definition thread_dtor :: "hid \<Rightarrow> cid \<Rightarrow> state \<Rightarrow> outcome option" where
  "thread_dtor h c s = lock_guard c (dtor_body h) s"

text \<open>
  The common body of \<open>thread::thread(thread&& other)\<close> and
  \<open>thread::operator=(thread&& other)\<close>: the two functions have the same statements.
\<close>

definition move_body :: "hid \<Rightarrow> hid \<Rightarrow> state \<Rightarrow> outcome" where
  "move_body h other s =
     (case handles s other of
        None \<Rightarrow> Undefined Dangling_pointer
      | Some p \<Rightarrow>
          (let s1 = s\<lparr>handles := (handles s)(h \<mapsto> p)\<rparr>;
               s2 = s1\<lparr>handles := (handles s1)(other \<mapsto> None)\<rparr> in
           case handles s2 h of
             None \<Rightarrow> Undefined Dangling_pointer
           | Some None \<Rightarrow> Returned s2
           | Some (Some t) \<Rightarrow>
               (case threads s2 t of
                  None \<Rightarrow> Undefined Dangling_pointer
                | Some ti \<Rightarrow> Returned (s2\<lparr>threads := (threads s2)(t \<mapsto> ti\<lparr>parent := Some h\<rparr>)\<rparr>))))"

definition thread_move_ctor :: "hid \<Rightarrow> hid \<Rightarrow> cid \<Rightarrow> state \<Rightarrow> outcome option" where
  "thread_move_ctor h other c s = lock_guard c (move_body h other) s"

definition move_assign_body :: "hid \<Rightarrow> hid \<Rightarrow> state \<Rightarrow> outcome" where
  "move_assign_body h other s =
     (case handles s h of
        None \<Rightarrow> Undefined Dangling_pointer
      | Some p \<Rightarrow> move_body h other s)"

definition thread_move_assign :: "hid \<Rightarrow> hid \<Rightarrow> cid \<Rightarrow> state \<Rightarrow> outcome option" where
  "thread_move_assign h other c s = lock_guard c (move_assign_body h other) s"

text \<open>\<open>thread::join()\<close> up to the switch.\<close>

definition join_body :: "hid \<Rightarrow> cid \<Rightarrow> state \<Rightarrow> outcome" where
  "join_body h c s =
     (case handles s h of
        None \<Rightarrow> Undefined Dangling_pointer
      | Some None \<Rightarrow> Returned s
      | Some (Some t) \<Rightarrow>
          (case threads s t of
             None \<Rightarrow> Undefined Dangling_pointer
           | Some ti \<Rightarrow>
               run_next Site_join c
                 (s\<lparr>threads := (threads s)(t \<mapsto> ti\<lparr>join_thd := join_thd ti @ [current c s]\<rparr>)\<rparr>)))"

definition thread_join :: "hid \<Rightarrow> cid \<Rightarrow> state \<Rightarrow> outcome option" where
  "thread_join h c s = lock_guard c (join_body h c) s"

text \<open>
  The common body of \<open>thread::yield\<close> and \<open>timer_handler\<close>; the two differ in the place
  that calls \<open>run_next\<close>.
\<close>

definition yield_body :: "call_site \<Rightarrow> cid \<Rightarrow> state \<Rightarrow> outcome" where
  "yield_body site c s =
     (if ready_queue s \<noteq> []
      then run_next site c (s\<lparr>ready_queue := ready_queue s @ [current c s]\<rparr>)
      else Returned s)"

definition thread_yield :: "cid \<Rightarrow> state \<Rightarrow> outcome option" where
  "thread_yield c s = lock_guard c (yield_body Site_yield c) s"

definition timer_handler :: "cid \<Rightarrow> state \<Rightarrow> outcome option" where
  "timer_handler c s = lock_guard c (yield_body Site_timer c) s"

text \<open>
  \<open>thread::impl::thread_start\<close> before the user function: the first code a new thread
  runs, still under the guard of the thread that switched to it.
\<close>

definition thread_start_entry :: "cid \<Rightarrow> state \<Rightarrow> outcome" where
  "thread_start_entry c s = then_do (reclaim s) (\<lambda>s1. Returned (unlock c s1))"

text \<open>The loop of \<open>thread_start\<close> over \<open>current_thd->join_thd\<close>.\<close>

definition pop_join :: "tid \<Rightarrow> state \<Rightarrow> state" where
  "pop_join t s =
     (case threads s t of
        None \<Rightarrow> s
      | Some ti \<Rightarrow> s\<lparr>threads := (threads s)(t \<mapsto> ti\<lparr>join_thd := tl (join_thd ti)\<rparr>)\<rparr>)"

fun drain_join :: "tid \<Rightarrow> tid option list \<Rightarrow> state \<Rightarrow> state" where
  "drain_join t [] s = s"
| "drain_join t (p # ps) s =
     drain_join t ps (pop_join t (wakeup_one_cpu (s\<lparr>ready_queue := ready_queue s @ [p]\<rparr>)))"

text \<open>\<open>thread::impl::thread_start\<close> after the user function has returned.\<close>

definition exit_body :: "cid \<Rightarrow> state \<Rightarrow> outcome" where
  "exit_body c s =
     (case current c s of
        None \<Rightarrow> Undefined Null_pointer
      | Some t \<Rightarrow>
          (case threads s t of
             None \<Rightarrow> Undefined Dangling_pointer
           | Some ti \<Rightarrow>
               (let s1 = drain_join t (join_thd ti) s in
                case parent ti of
                  None \<Rightarrow> run_next Site_exit c (s1\<lparr>last_free_thread := Some t\<rparr>)
                | Some h \<Rightarrow>
                    (case handles s1 h of
                       None \<Rightarrow> Undefined Dangling_pointer
                     | Some p \<Rightarrow>
                         run_next Site_exit c
                           (s1\<lparr>handles := (handles s1)(h \<mapsto> None),
                               last_free_thread := Some t\<rparr>)))))"

definition thread_start_exit :: "cid \<Rightarrow> state \<Rightarrow> outcome option" where
  "thread_start_exit c s = map_option (exit_body c) (lock c s)"

text \<open>
  \<open>idle_func\<close>: the \<open>lock()\<close> before the loop or at its end, then the loop body up to
  \<open>run_next\<close>. The rest of the body runs when the idle thread is resumed.
\<close>

definition idle_body :: "cid \<Rightarrow> state \<Rightarrow> outcome" where
  "idle_body c s = run_next Site_idle c (s\<lparr>idle_queue := idle_queue s @ [current c s]\<rparr>)"

definition idle_func :: "cid \<Rightarrow> state \<Rightarrow> outcome option" where
  "idle_func c s = map_option (idle_body c) (lock c s)"

section \<open>Mutex\<close>

definition mutex_impl_lock :: "call_site \<Rightarrow> mid \<Rightarrow> cid \<Rightarrow> state \<Rightarrow> outcome" where
  "mutex_impl_lock site m c s =
     (case mutexes s m of
        None \<Rightarrow> Undefined Dangling_pointer
      | Some mi \<Rightarrow>
          if own_thd mi \<noteq> None
          then run_next site c (s\<lparr>mutexes := (mutexes s)(m \<mapsto> mi\<lparr>thd_q := thd_q mi @ [current c s]\<rparr>)\<rparr>)
          else Returned (s\<lparr>mutexes := (mutexes s)(m \<mapsto> mi\<lparr>own_thd := current c s\<rparr>)\<rparr>))"

definition mutex_impl_unlock :: "mid \<Rightarrow> cid \<Rightarrow> state \<Rightarrow> outcome" where
  "mutex_impl_unlock m c s =
     (case mutexes s m of
        None \<Rightarrow> Undefined Dangling_pointer
      | Some mi \<Rightarrow>
          if own_thd mi \<noteq> current c s
          then Threw (Runtime_error ''release not-own'') s
          else (let mi1 = mi\<lparr>own_thd := None\<rparr> in
                if thd_q mi1 \<noteq> []
                then Returned (wakeup_one_cpu
                       (s\<lparr>ready_queue := ready_queue s @ [hd (thd_q mi1)],
                          mutexes := (mutexes s)(m \<mapsto> mi1\<lparr>own_thd := hd (thd_q mi1),
                                                          thd_q := tl (thd_q mi1)\<rparr>)\<rparr>))
                else Returned (s\<lparr>mutexes := (mutexes s)(m \<mapsto> mi1)\<rparr>)))"

definition mutex_lock :: "mid \<Rightarrow> cid \<Rightarrow> state \<Rightarrow> outcome option" where
  "mutex_lock m c s = lock_guard c (mutex_impl_lock (Site_mutex_lock m) m c) s"

definition mutex_unlock :: "mid \<Rightarrow> cid \<Rightarrow> state \<Rightarrow> outcome option" where
  "mutex_unlock m c s = lock_guard c (mutex_impl_unlock m c) s"

section \<open>Condition variable\<close>

text \<open>\<open>cv::impl::wait\<close> up to the switch.\<close>

definition cv_impl_wait :: "vid \<Rightarrow> mid \<Rightarrow> cid \<Rightarrow> state \<Rightarrow> outcome" where
  "cv_impl_wait v m c s =
     then_do (mutex_impl_unlock m c s) (\<lambda>s1.
       case cvs s1 v of
         None \<Rightarrow> Undefined Dangling_pointer
       | Some q \<Rightarrow> run_next (Site_cv_wait m) c (s1\<lparr>cvs := (cvs s1)(v \<mapsto> q @ [current c s1])\<rparr>))"

definition cv_impl_signal :: "vid \<Rightarrow> state \<Rightarrow> outcome" where
  "cv_impl_signal v s =
     (case cvs s v of
        None \<Rightarrow> Undefined Dangling_pointer
      | Some q \<Rightarrow>
          if q \<noteq> []
          then Returned (wakeup_one_cpu (s\<lparr>ready_queue := ready_queue s @ [hd q],
                                           cvs := (cvs s)(v \<mapsto> tl q)\<rparr>))
          else Returned s)"

fun drain_cv :: "vid \<Rightarrow> tid option list \<Rightarrow> state \<Rightarrow> state" where
  "drain_cv v [] s = s"
| "drain_cv v (p # ps) s =
     drain_cv v ps (wakeup_one_cpu (s\<lparr>ready_queue := ready_queue s @ [p],
                                      cvs := (cvs s)(v \<mapsto> ps)\<rparr>))"

definition cv_impl_broadcast :: "vid \<Rightarrow> state \<Rightarrow> outcome" where
  "cv_impl_broadcast v s =
     (case cvs s v of
        None \<Rightarrow> Undefined Dangling_pointer
      | Some q \<Rightarrow> Returned (drain_cv v q s))"

definition cv_wait :: "vid \<Rightarrow> mid \<Rightarrow> cid \<Rightarrow> state \<Rightarrow> outcome option" where
  "cv_wait v m c s = lock_guard c (cv_impl_wait v m c) s"

definition cv_signal :: "vid \<Rightarrow> cid \<Rightarrow> state \<Rightarrow> outcome option" where
  "cv_signal v c s = lock_guard c (cv_impl_signal v) s"

definition cv_broadcast :: "vid \<Rightarrow> cid \<Rightarrow> state \<Rightarrow> outcome option" where
  "cv_broadcast v c s = lock_guard c (cv_impl_broadcast v) s"

section \<open>Resuming a thread\<close>

text \<open>
  What the caller of \<open>run_next\<close> does after \<open>run_next\<close> has returned, that is after the
  tail of \<open>run_next\<close> has reclaimed \<open>last_free_thread\<close>. The public entry points end with
  the destructor of their \<open>lock_guard\<close>; \<open>cv::impl::wait\<close> first locks the mutex again;
  \<open>idle_func\<close> publishes the CPU as suspended, stores 0 to the guard and calls
  \<open>interrupt_enable_suspend\<close>; \<open>thread_start\<close> would return from the entry function of
  a context whose \<open>uc_link\<close> is null, and by then its own stack has been deleted.
\<close>

definition after_run_next :: "call_site \<Rightarrow> cid \<Rightarrow> state \<Rightarrow> outcome" where
  "after_run_next site c s =
     (case site of
        Site_init \<Rightarrow> Returned s
      | Site_idle \<Rightarrow> Returned (s\<lparr>suspended_queue := suspended_queue s @ [c],
                                 guard := False,
                                 interrupts := (interrupts s)(c := True)\<rparr>)
      | Site_timer \<Rightarrow> Returned (unlock c s)
      | Site_exit \<Rightarrow> Undefined Exited_thread_resumed
      | Site_join \<Rightarrow> Returned (unlock c s)
      | Site_yield \<Rightarrow> Returned (unlock c s)
      | Site_mutex_lock m \<Rightarrow> Returned (unlock c s)
      | Site_cv_wait m \<Rightarrow>
          then_do (mutex_impl_lock (Site_cv_relock m) m c s) (\<lambda>s1. Returned (unlock c s1))
      | Site_cv_relock m \<Rightarrow> Returned (unlock c s))"

text \<open>
  The code that runs on CPU \<open>c\<close> right after a switch, in the thread that \<open>run_next\<close> made
  current: a fresh context enters \<open>thread_start\<close>, a saved one continues in the tail of
  \<open>run_next\<close>.
\<close>

definition resume :: "cid \<Rightarrow> state \<Rightarrow> outcome" where
  "resume c s =
     (case current c s of
        None \<Rightarrow> Undefined Null_pointer
      | Some t \<Rightarrow>
          (case threads s t of
             None \<Rightarrow> Undefined Dangling_pointer
           | Some ti \<Rightarrow>
               (case uc ti of
                  Entry fn \<Rightarrow> thread_start_entry c s
                | Saved site \<Rightarrow> then_do (reclaim s) (after_run_next site c))))"

section \<open>Boot\<close>

text \<open>
  The end of \<open>cpu::init\<close>: \<open>lock(); ...; cpu::impl::run_next();\<close>. The threads that
  \<open>cpu::init\<close> creates before are calls of the \<open>thread\<close> constructor and destructor.
\<close>

definition cpu_init_run :: "cid \<Rightarrow> state \<Rightarrow> outcome option" where
  "cpu_init_run c s = map_option (run_next Site_init c) (lock c s)"

section \<open>Executions\<close>

text \<open>
  The pieces of code that start by taking the guard: the public entry points, the timer
  handler, the part of \<open>thread_start\<close> after the user function, one turn of the idle loop
  and the end of \<open>cpu::init\<close>.
\<close>

datatype event =
    Thread_ctor hid "startfunc option" tid
  | Thread_dtor hid
  | Thread_move_ctor hid hid
  | Thread_move_assign hid hid
  | Thread_join hid
  | Thread_yield
  | Timer
  | Thread_exit
  | Idle_loop
  | Cpu_init_run
  | Mutex_lock mid
  | Mutex_unlock mid
  | Cv_wait vid mid
  | Cv_signal vid
  | Cv_broadcast vid

fun call :: "cid \<Rightarrow> event \<Rightarrow> state \<Rightarrow> outcome option" where
  "call c (Thread_ctor h fn a) s = thread_ctor h fn a c s"
| "call c (Thread_dtor h) s = thread_dtor h c s"
| "call c (Thread_move_ctor h other) s = thread_move_ctor h other c s"
| "call c (Thread_move_assign h other) s = thread_move_assign h other c s"
| "call c (Thread_join h) s = thread_join h c s"
| "call c Thread_yield s = thread_yield c s"
| "call c Timer s = timer_handler c s"
| "call c Thread_exit s = thread_start_exit c s"
| "call c Idle_loop s = idle_func c s"
| "call c Cpu_init_run s = cpu_init_run c s"
| "call c (Mutex_lock m) s = mutex_lock m c s"
| "call c (Mutex_unlock m) s = mutex_unlock m c s"
| "call c (Cv_wait v m) s = cv_wait v m c s"
| "call c (Cv_signal v) s = cv_signal v c s"
| "call c (Cv_broadcast v) s = cv_broadcast v c s"

text \<open>
  What the caller may do. The \<open>thread\<close> constructors build a handle at an address that
  holds no handle, and \<open>new\<close> returns an address that holds no \<open>thread::impl\<close>. Apart
  from the code of \<open>cpu::init\<close>, code runs on a CPU inside a thread, so \<open>current_thd\<close> of
  that CPU is not null.
\<close>

fun allowed :: "cid \<Rightarrow> event \<Rightarrow> state \<Rightarrow> bool" where
  "allowed c (Thread_ctor h fn a) s = (handles s h = None \<and> threads s a = None)"
| "allowed c (Thread_dtor h) s = True"
| "allowed c (Thread_move_ctor h other) s = (handles s h = None \<and> current c s \<noteq> None)"
| "allowed c Cpu_init_run s = True"
| "allowed c e s = (current c s \<noteq> None)"

text \<open>
  A configuration is the state together with the CPU, if any, that has switched to another
  thread and has not yet run the code that this thread resumes with. That CPU holds the
  guard, so it alone can take the next step.
\<close>

datatype config = Running state | Pending cid state

fun state_of :: "config \<Rightarrow> state" where
  "state_of (Running s) = s"
| "state_of (Pending c s) = s"

inductive trans :: "config \<Rightarrow> config \<Rightarrow> bool" where
  call_returned: "allowed c e s \<Longrightarrow> call c e s = Some (Returned s') \<Longrightarrow> trans (Running s) (Running s')"
| call_threw: "allowed c e s \<Longrightarrow> call c e s = Some (Threw x s') \<Longrightarrow> trans (Running s) (Running s')"
| call_switched: "allowed c e s \<Longrightarrow> call c e s = Some (Switched s') \<Longrightarrow> trans (Running s) (Pending c s')"
| resume_returned: "resume c s = Returned s' \<Longrightarrow> trans (Pending c s) (Running s')"
| resume_switched: "resume c s = Switched s' \<Longrightarrow> trans (Pending c s) (Pending c s')"

section \<open>Example states\<close>

definition boot_state :: state where
  "boot_state = \<lparr>guard = False, interrupts = (\<lambda>c. True), ready_queue = [], idle_queue = [],
     suspended_queue = [], last_free_thread = None, current_thd = (\<lambda>c. None),
     threads = Map.empty, handles = Map.empty, mutexes = Map.empty, cvs = Map.empty,
     ipi_sent = [], switches = []\<rparr>"

text \<open>
  CPU 0 runs thread 1, which owns mutex 5; thread 2 waits for mutex 5; thread 3 is a parked
  idle thread; CPU 1 is suspended in the idle thread 4; handle 10 owns thread 1 and handle
  11 owns thread 2; mutex 6 is unlocked; condition variable 7 has no waiter.
\<close>

definition demo_state :: state where
  "demo_state = boot_state\<lparr>
     current_thd := (\<lambda>c. None)(0 := Some 1, 1 := Some 4),
     idle_queue := [Some 3],
     suspended_queue := [1],
     threads := [1 \<mapsto> \<lparr>parent = Some 10, uc = Entry (User_func 0), join_thd = []\<rparr>,
                 2 \<mapsto> \<lparr>parent = Some 11, uc = Saved (Site_mutex_lock 5), join_thd = []\<rparr>,
                 3 \<mapsto> \<lparr>parent = None, uc = Saved Site_idle, join_thd = []\<rparr>,
                 4 \<mapsto> \<lparr>parent = None, uc = Saved Site_idle, join_thd = []\<rparr>],
     handles := [10 \<mapsto> Some 1, 11 \<mapsto> Some 2],
     mutexes := [5 \<mapsto> \<lparr>own_thd = Some 1, thd_q = [Some 2]\<rparr>,
                 6 \<mapsto> \<lparr>own_thd = None, thd_q = []\<rparr>],
     cvs := [7 \<mapsto> []]\<rparr>"

text \<open>\<open>demo_state\<close> after thread 1 has run the exit part of \<open>thread_start\<close> on CPU 0.\<close>

definition demo_exited :: state where
  "demo_exited = demo_state\<lparr>
     guard := True,
     interrupts := (\<lambda>c. True)(0 := False),
     idle_queue := [],
     last_free_thread := Some 1,
     current_thd := (\<lambda>c. None)(0 := Some 3, 1 := Some 4),
     threads := [1 \<mapsto> \<lparr>parent = Some 10, uc = Saved Site_exit, join_thd = []\<rparr>,
                 2 \<mapsto> \<lparr>parent = Some 11, uc = Saved (Site_mutex_lock 5), join_thd = []\<rparr>,
                 3 \<mapsto> \<lparr>parent = None, uc = Saved Site_idle, join_thd = []\<rparr>,
                 4 \<mapsto> \<lparr>parent = None, uc = Saved Site_idle, join_thd = []\<rparr>],
     handles := [10 \<mapsto> None, 11 \<mapsto> Some 2],
     switches := [Swapcontext 1 3]\<rparr>"

text \<open>\<open>demo_state\<close> after \<open>handle10 = std::move(handle11)\<close> on CPU 0.\<close>

definition demo_moved :: state where
  "demo_moved = demo_state\<lparr>
     threads := [1 \<mapsto> \<lparr>parent = Some 10, uc = Entry (User_func 0), join_thd = []\<rparr>,
                 2 \<mapsto> \<lparr>parent = Some 10, uc = Saved (Site_mutex_lock 5), join_thd = []\<rparr>,
                 3 \<mapsto> \<lparr>parent = None, uc = Saved Site_idle, join_thd = []\<rparr>,
                 4 \<mapsto> \<lparr>parent = None, uc = Saved Site_idle, join_thd = []\<rparr>],
     handles := [10 \<mapsto> Some 2, 11 \<mapsto> None]\<rparr>"

text \<open>\<open>demo_state\<close> after thread 1 has called \<open>join\<close> on handle 11 on CPU 0.\<close>

definition demo_joined :: state where
  "demo_joined = demo_state\<lparr>
     guard := True,
     interrupts := (\<lambda>c. True)(0 := False),
     idle_queue := [],
     current_thd := (\<lambda>c. None)(0 := Some 3, 1 := Some 4),
     threads := [1 \<mapsto> \<lparr>parent = Some 10, uc = Saved Site_join, join_thd = []\<rparr>,
                 2 \<mapsto> \<lparr>parent = Some 11, uc = Saved (Site_mutex_lock 5), join_thd = [Some 1]\<rparr>,
                 3 \<mapsto> \<lparr>parent = None, uc = Saved Site_idle, join_thd = []\<rparr>,
                 4 \<mapsto> \<lparr>parent = None, uc = Saved Site_idle, join_thd = []\<rparr>],
     switches := [Swapcontext 1 3]\<rparr>"

text \<open>
  \<open>demo_state\<close> after thread 1 has called \<open>wait\<close> on condition variable 7 with mutex 5 on
  CPU 0: the mutex went to thread 2, which CPU 0 has switched to.
\<close>

definition demo_waiting :: state where
  "demo_waiting = demo_state\<lparr>
     guard := True,
     interrupts := (\<lambda>c. True)(0 := False),
     suspended_queue := [],
     current_thd := (\<lambda>c. None)(0 := Some 2, 1 := Some 4),
     threads := [1 \<mapsto> \<lparr>parent = Some 10, uc = Saved (Site_cv_wait 5), join_thd = []\<rparr>,
                 2 \<mapsto> \<lparr>parent = Some 11, uc = Saved (Site_mutex_lock 5), join_thd = []\<rparr>,
                 3 \<mapsto> \<lparr>parent = None, uc = Saved Site_idle, join_thd = []\<rparr>,
                 4 \<mapsto> \<lparr>parent = None, uc = Saved Site_idle, join_thd = []\<rparr>],
     mutexes := [5 \<mapsto> \<lparr>own_thd = Some 2, thd_q = []\<rparr>,
                 6 \<mapsto> \<lparr>own_thd = None, thd_q = []\<rparr>],
     cvs := [7 \<mapsto> [Some 1]],
     ipi_sent := [1],
     switches := [Swapcontext 1 2]\<rparr>"

text \<open>
  A state in which CPU 0 has just switched back to thread 1, which had blocked in the
  \<open>mtx->lock()\<close> of \<open>cv::impl::wait\<close> and has been handed mutex 5 since.
\<close>

definition demo_relock :: state where
  "demo_relock = demo_state\<lparr>
     guard := True,
     interrupts := (\<lambda>c. True)(0 := False),
     threads := [1 \<mapsto> \<lparr>parent = Some 10, uc = Saved (Site_cv_relock 5), join_thd = []\<rparr>,
                 2 \<mapsto> \<lparr>parent = Some 11, uc = Saved (Site_mutex_lock 5), join_thd = []\<rparr>,
                 3 \<mapsto> \<lparr>parent = None, uc = Saved Site_idle, join_thd = []\<rparr>,
                 4 \<mapsto> \<lparr>parent = None, uc = Saved Site_idle, join_thd = []\<rparr>]\<rparr>"

text \<open>
  \<open>demo_exited\<close> after the idle thread 3 has resumed on CPU 0: thread 1 is freed and CPU 0
  is suspended.
\<close>

definition demo_reclaimed :: state where
  "demo_reclaimed = demo_exited\<lparr>
     guard := False,
     interrupts := (\<lambda>c. True),
     suspended_queue := [1, 0],
     last_free_thread := None,
     threads := [2 \<mapsto> \<lparr>parent = Some 11, uc = Saved (Site_mutex_lock 5), join_thd = []\<rparr>,
                 3 \<mapsto> \<lparr>parent = None, uc = Saved Site_idle, join_thd = []\<rparr>,
                 4 \<mapsto> \<lparr>parent = None, uc = Saved Site_idle, join_thd = []\<rparr>]\<rparr>"

text \<open>
  \<open>demo_moved\<close> after thread 1 has constructed handle 12 with a user function on CPU 0: the
  new thread 5 is ready and CPU 1 has been sent an IPI.
\<close>

definition demo_spawned :: state where
  "demo_spawned = demo_moved\<lparr>
     ready_queue := [Some 5],
     suspended_queue := [],
     ipi_sent := [1],
     threads := [1 \<mapsto> \<lparr>parent = Some 10, uc = Entry (User_func 0), join_thd = []\<rparr>,
                 2 \<mapsto> \<lparr>parent = Some 10, uc = Saved (Site_mutex_lock 5), join_thd = []\<rparr>,
                 3 \<mapsto> \<lparr>parent = None, uc = Saved Site_idle, join_thd = []\<rparr>,
                 4 \<mapsto> \<lparr>parent = None, uc = Saved Site_idle, join_thd = []\<rparr>,
                 5 \<mapsto> \<lparr>parent = Some 12, uc = Entry (User_func 7), join_thd = []\<rparr>],
     handles := [10 \<mapsto> Some 2, 11 \<mapsto> None, 12 \<mapsto> Some 5]\<rparr>"

text \<open>
  \<open>demo_spawned\<close> after thread 1 has run the exit part of \<open>thread_start\<close> on CPU 0: it has
  written null to handle 10 and CPU 0 has switched to thread 5.
\<close>

definition demo_orphaning :: state where
  "demo_orphaning = demo_spawned\<lparr>
     guard := True,
     interrupts := (\<lambda>c. True)(0 := False),
     ready_queue := [],
     last_free_thread := Some 1,
     current_thd := (\<lambda>c. None)(0 := Some 5, 1 := Some 4),
     threads := [1 \<mapsto> \<lparr>parent = Some 10, uc = Saved Site_exit, join_thd = []\<rparr>,
                 2 \<mapsto> \<lparr>parent = Some 10, uc = Saved (Site_mutex_lock 5), join_thd = []\<rparr>,
                 3 \<mapsto> \<lparr>parent = None, uc = Saved Site_idle, join_thd = []\<rparr>,
                 4 \<mapsto> \<lparr>parent = None, uc = Saved Site_idle, join_thd = []\<rparr>,
                 5 \<mapsto> \<lparr>parent = Some 12, uc = Entry (User_func 7), join_thd = []\<rparr>],
     handles := [10 \<mapsto> None, 11 \<mapsto> None, 12 \<mapsto> Some 5],
     switches := [Swapcontext 1 5]\<rparr>"

text \<open>
  \<open>demo_orphaning\<close> after thread 5 has entered \<open>thread_start\<close> on CPU 0: thread 1 is
  freed and the guard is released. Thread 2 is blocked in \<open>mutex::lock\<close>.
\<close>

definition demo_orphaned :: state where
  "demo_orphaned = demo_orphaning\<lparr>
     guard := False,
     interrupts := (\<lambda>c. True),
     last_free_thread := None,
     threads := [2 \<mapsto> \<lparr>parent = Some 10, uc = Saved (Site_mutex_lock 5), join_thd = []\<rparr>,
                 3 \<mapsto> \<lparr>parent = None, uc = Saved Site_idle, join_thd = []\<rparr>,
                 4 \<mapsto> \<lparr>parent = None, uc = Saved Site_idle, join_thd = []\<rparr>,
                 5 \<mapsto> \<lparr>parent = Some 12, uc = Entry (User_func 7), join_thd = []\<rparr>]\<rparr>"

section \<open>Auxiliary definitions for the proofs\<close>

text \<open>The heap after \<open>swapcontext\<close> has saved the context of the thread it leaves.\<close>

definition saved_uc :: "call_site \<Rightarrow> tid option \<Rightarrow> (tid \<rightharpoonup> thread_impl) \<Rightarrow> (tid \<rightharpoonup> thread_impl)" where
  "saved_uc site old T =
     (case old of
        None \<Rightarrow> T
      | Some ot \<Rightarrow> (case T ot of
                      None \<Rightarrow> T
                    | Some oi \<Rightarrow> T(ot \<mapsto> oi\<lparr>uc := Saved site\<rparr>)))"

definition switch_entry :: "tid option \<Rightarrow> tid \<Rightarrow> switch" where
  "switch_entry old n = (case old of None \<Rightarrow> Setcontext n | Some ot \<Rightarrow> Swapcontext ot n)"

text \<open>The state in which an outcome leaves the program, if it is defined.\<close>

fun result :: "outcome \<Rightarrow> state option" where
  "result (Returned s) = Some s"
| "result (Threw e s) = Some s"
| "result (Switched s) = Some s"
| "result (Undefined u) = None"

text \<open>The state right after \<open>lock()\<close> has returned on CPU \<open>c\<close>.\<close>

definition locked :: "cid \<Rightarrow> state \<Rightarrow> state" where
  "locked c s = s\<lparr>interrupts := (interrupts s)(c := False), guard := True\<rparr>"

text \<open>
  What each piece of code does between taking the guard and either releasing it or
  switching: \<open>call c e s\<close> is \<open>body_of c e\<close> run on \<open>locked c s\<close>, followed by \<open>unlock\<close>
  unless it switched.
\<close>

fun body_of :: "cid \<Rightarrow> event \<Rightarrow> state \<Rightarrow> outcome" where
  "body_of c (Thread_ctor h fn a) = ctor_body h fn a"
| "body_of c (Thread_dtor h) = dtor_body h"
| "body_of c (Thread_move_ctor h other) = move_body h other"
| "body_of c (Thread_move_assign h other) = move_assign_body h other"
| "body_of c (Thread_join h) = join_body h c"
| "body_of c Thread_yield = yield_body Site_yield c"
| "body_of c Timer = yield_body Site_timer c"
| "body_of c Thread_exit = exit_body c"
| "body_of c Idle_loop = idle_body c"
| "body_of c Cpu_init_run = run_next Site_init c"
| "body_of c (Mutex_lock m) = mutex_impl_lock (Site_mutex_lock m) m c"
| "body_of c (Mutex_unlock m) = mutex_impl_unlock m c"
| "body_of c (Cv_wait v m) = cv_impl_wait v m c"
| "body_of c (Cv_signal v) = cv_impl_signal v"
| "body_of c (Cv_broadcast v) = cv_impl_broadcast v"

section \<open>Invariants\<close>

text \<open>
  The places that hold a pointer to a \<open>thread::impl\<close> and decide who runs it: the
  \<open>current_thd\<close> of a CPU, the ready queue, the idle queue, \<open>last_free_thread\<close>, the
  \<open>join_thd\<close> queue of a thread, the \<open>thd_q\<close> of a mutex and the \<open>thd_q\<close> of a condition
  variable. (The \<open>own_thd\<close> of a mutex and the pointer of a handle are not among them.)
\<close>

datatype place = P_cpu cid | P_ready | P_idle | P_free | P_join tid | P_mutex mid | P_cv vid

fun refs :: "state \<Rightarrow> place \<Rightarrow> tid option list" where
  "refs s (P_cpu c) = [current_thd s c]"
| "refs s P_ready = ready_queue s"
| "refs s P_idle = idle_queue s"
| "refs s P_free = [last_free_thread s]"
| "refs s (P_join t) = (case threads s t of None \<Rightarrow> [] | Some ti \<Rightarrow> join_thd ti)"
| "refs s (P_mutex m) = (case mutexes s m of None \<Rightarrow> [] | Some mi \<Rightarrow> thd_q mi)"
| "refs s (P_cv v) = (case cvs s v of None \<Rightarrow> [] | Some q \<Rightarrow> q)"

definition cnt :: "(place \<Rightarrow> tid option list) \<Rightarrow> place \<Rightarrow> tid \<Rightarrow> nat" where
  "cnt R p t = count_list (R p) (Some t)"

text \<open>Every thread is held at one place at most, and once there.\<close>

definition single_ref :: "(place \<Rightarrow> tid option list) \<Rightarrow> bool" where
  "single_ref R \<longleftrightarrow> (\<forall>t. \<exists>p. cnt R p t \<le> 1 \<and> (\<forall>q. q \<noteq> p \<longrightarrow> cnt R q t = 0))"

text \<open>Every thread held at some place has not been deleted.\<close>

definition all_live :: "(place \<Rightarrow> tid option list) \<Rightarrow> (tid \<rightharpoonup> thread_impl) \<Rightarrow> bool" where
  "all_live R T \<longleftrightarrow> (\<forall>p t. 0 < cnt R p t \<longrightarrow> T t \<noteq> None)"

definition refs_ok :: "(place \<Rightarrow> tid option list) \<Rightarrow> (tid \<rightharpoonup> thread_impl) \<Rightarrow> bool" where
  "refs_ok R T \<longleftrightarrow> single_ref R \<and> all_live R T"

definition state_ok :: "state \<Rightarrow> bool" where
  "state_ok s \<longleftrightarrow> refs_ok (refs s) (threads s)"

text \<open>A mutex queues no null pointer, and has an owner whenever a thread is queued on it.\<close>

definition mutex_ok :: "mutex_impl \<Rightarrow> bool" where
  "mutex_ok mi \<longleftrightarrow> None \<notin> set (thd_q mi) \<and> (own_thd mi = None \<longrightarrow> thd_q mi = [])"

definition mutexes_ok :: "state \<Rightarrow> bool" where
  "mutexes_ok s \<longleftrightarrow> (\<forall>m mi. mutexes s m = Some mi \<longrightarrow> mutex_ok mi)"

text \<open>
  A thread has exited and is not freed: it exists and its context was saved by the
  \<open>run_next\<close> at the end of \<open>thread_start\<close>.
\<close>

definition exited :: "state \<Rightarrow> tid \<Rightarrow> bool" where
  "exited s t \<longleftrightarrow> (\<exists>ti. threads s t = Some ti \<and> uc ti = Saved Site_exit)"

text \<open>While no CPU is between a switch and the code that follows it.\<close>

definition parked0 :: "state \<Rightarrow> bool" where
  "parked0 s \<longleftrightarrow> last_free_thread s = None \<and> (\<forall>t. \<not> exited s t)"

text \<open>While a CPU is between a switch and the code that follows it.\<close>

definition parked1 :: "state \<Rightarrow> bool" where
  "parked1 s \<longleftrightarrow> (\<forall>t. exited s t \<longrightarrow> last_free_thread s = Some t)
     \<and> (\<forall>t ti. last_free_thread s = Some t \<longrightarrow> threads s t = Some ti \<longrightarrow> join_thd ti = [])"

text \<open>The context was saved by the \<open>run_next\<close> in \<open>mutex::impl::lock\<close> on mutex \<open>m\<close>.\<close>

definition lock_site :: "mid \<Rightarrow> ucontext \<Rightarrow> bool" where
  "lock_site m u \<longleftrightarrow> u = Saved (Site_mutex_lock m) \<or> u = Saved (Site_cv_relock m)"

text \<open>
  A thread that has blocked in \<open>mutex::impl::lock\<close> is queued on the mutex or has been made
  its owner. The exception is the thread that the CPU \<open>pc\<close>, if any, has just switched to and
  that has not yet run.
\<close>

definition waits :: "cid option \<Rightarrow> state \<Rightarrow> bool" where
  "waits pc s \<longleftrightarrow>
     (\<forall>t ti m mi. threads s t = Some ti \<longrightarrow> lock_site m (uc ti) \<longrightarrow> mutexes s m = Some mi \<longrightarrow>
        (\<forall>c. current_thd s c = Some t \<longrightarrow> pc = Some c) \<longrightarrow>
        Some t \<in> set (thd_q mi) \<or> own_thd mi = Some t)"

text \<open>
  A step that switches no thread: the saved contexts and the owners of the mutexes are as
  before and no thread left the queue of a mutex.
\<close>

definition quiet :: "state \<Rightarrow> state \<Rightarrow> bool" where
  "quiet s s' \<longleftrightarrow>
     current_thd s' = current_thd s
     \<and> (\<forall>t ti'. threads s' t = Some ti' \<longrightarrow>
          (\<exists>ti. threads s t = Some ti \<and> uc ti = uc ti') \<or> (\<exists>f. uc ti' = Entry f))
     \<and> (\<forall>m mi'. mutexes s' m = Some mi' \<longrightarrow>
          (\<exists>mi. mutexes s m = Some mi \<and> own_thd mi' = own_thd mi
                \<and> set (thd_q mi) \<subseteq> set (thd_q mi')))"

text \<open>
  The handle that the \<open>parent\<close> back-link of the thread in \<open>last_free_thread\<close> points at
  has not been destroyed, so the destructor of that thread writes to a live object.
\<close>

definition free_ok :: "state \<Rightarrow> bool" where
  "free_ok s \<longleftrightarrow>
     (\<forall>t ti h. last_free_thread s = Some t \<longrightarrow> threads s t = Some ti \<longrightarrow> parent ti = Some h \<longrightarrow>
        handles s h \<noteq> None)"

text \<open>The invariant of executions.\<close>

fun config_ok :: "config \<Rightarrow> bool" where
  "config_ok (Running s) = (state_ok s \<and> mutexes_ok s \<and> parked0 s \<and> waits None s)"
| "config_ok (Pending c s) =
     (state_ok s \<and> mutexes_ok s \<and> parked1 s \<and> waits (Some c) s \<and> free_ok s)"

text \<open>Thread \<open>w\<close> is in the \<open>join_thd\<close> queue of thread \<open>t\<close>.\<close>

definition waiting_on :: "state \<Rightarrow> tid \<Rightarrow> tid \<Rightarrow> bool" where
  "waiting_on s t w \<longleftrightarrow> (\<exists>ti. threads s t = Some ti \<and> Some w \<in> set (join_thd ti))"

section \<open>Properties of the guard\<close>

lemma spin_free: "\<not> guard s \<Longrightarrow> spin s = Some (s\<lparr>guard := True\<rparr>)"
  by (subst spin.simps) simp

lemma spin_Some: "spin s = Some y \<Longrightarrow> \<not> guard s"
proof -
  have "\<forall>s y. spin s = Some y \<longrightarrow> \<not> guard s"
  proof (rule spin.fixp_induct)
    show "option.admissible (\<lambda>spin. \<forall>s y. spin s = Some y \<longrightarrow> \<not> guard s)"
      by (rule option_admissible)
  qed (auto split: if_splits)
  thus "spin s = Some y \<Longrightarrow> \<not> guard s" by blast
qed

lemma spin_held: "guard s \<Longrightarrow> spin s = None"
  using spin_Some by (cases "spin s") auto

lemma lock_free:
  "\<not> guard s \<Longrightarrow> lock c s = Some (s\<lparr>interrupts := (interrupts s)(c := False), guard := True\<rparr>)"
  by (simp add: lock_def spin_free)

lemma lock_held: "guard s \<Longrightarrow> lock c s = None"
  by (simp add: lock_def spin_held)

lemma lock_guard_free:
  "\<not> guard s \<Longrightarrow> lock_guard c body s =
     Some (case body (s\<lparr>interrupts := (interrupts s)(c := False), guard := True\<rparr>) of
            Returned s2 \<Rightarrow> Returned (unlock c s2)
          | Threw e s2 \<Rightarrow> Threw e (unlock c s2)
          | Switched s2 \<Rightarrow> Switched s2
          | Undefined u \<Rightarrow> Undefined u)"
  by (simp add: lock_guard_def lock_free)

lemma lock_guard_held: "guard s \<Longrightarrow> lock_guard c body s = None"
  by (simp add: lock_guard_def lock_held)

section \<open>Effects of the single operations\<close>

lemma wakeup_one_cpu_fields [simp]:
  "ready_queue (wakeup_one_cpu s) = ready_queue s"
  "idle_queue (wakeup_one_cpu s) = idle_queue s"
  "last_free_thread (wakeup_one_cpu s) = last_free_thread s"
  "current_thd (wakeup_one_cpu s) = current_thd s"
  "threads (wakeup_one_cpu s) = threads s"
  "handles (wakeup_one_cpu s) = handles s"
  "mutexes (wakeup_one_cpu s) = mutexes s"
  "cvs (wakeup_one_cpu s) = cvs s"
  "guard (wakeup_one_cpu s) = guard s"
  "interrupts (wakeup_one_cpu s) = interrupts s"
  "switches (wakeup_one_cpu s) = switches s"
  by (simp_all add: wakeup_one_cpu_def)

lemma pop_join_fields [simp]:
  "ready_queue (pop_join t s) = ready_queue s"
  "idle_queue (pop_join t s) = idle_queue s"
  "suspended_queue (pop_join t s) = suspended_queue s"
  "ipi_sent (pop_join t s) = ipi_sent s"
  "last_free_thread (pop_join t s) = last_free_thread s"
  "current_thd (pop_join t s) = current_thd s"
  "handles (pop_join t s) = handles s"
  "mutexes (pop_join t s) = mutexes s"
  "cvs (pop_join t s) = cvs s"
  "guard (pop_join t s) = guard s"
  "interrupts (pop_join t s) = interrupts s"
  "switches (pop_join t s) = switches s"
  by (simp_all add: pop_join_def split: option.splits)

lemma drain_join_fields [simp]:
  "ready_queue (drain_join t js s) = ready_queue s @ js"
  "idle_queue (drain_join t js s) = idle_queue s"
  "last_free_thread (drain_join t js s) = last_free_thread s"
  "current_thd (drain_join t js s) = current_thd s"
  "handles (drain_join t js s) = handles s"
  "mutexes (drain_join t js s) = mutexes s"
  "cvs (drain_join t js s) = cvs s"
  "guard (drain_join t js s) = guard s"
  "interrupts (drain_join t js s) = interrupts s"
  "switches (drain_join t js s) = switches s"
  by (induction js arbitrary: s; simp)+

lemma drain_join_suspended:
  "suspended_queue (drain_join t js s) = drop (length js) (suspended_queue s)"
  "ipi_sent (drain_join t js s) = ipi_sent s @ take (length js) (suspended_queue s)"
  by (induction js arbitrary: s; simp add: wakeup_one_cpu_def drop_Suc take_Suc)+

lemma drain_join_threads:
  "threads (drain_join t js s) =
     (case threads s t of
        None \<Rightarrow> threads s
      | Some ti \<Rightarrow> (threads s)(t \<mapsto> ti\<lparr>join_thd := drop (length js) (join_thd ti)\<rparr>))"
proof (induction js arbitrary: s)
  case Nil
  show ?case by (auto split: option.splits)
next
  case (Cons p ps)
  show ?case
    by (simp add: Cons pop_join_def drop_Suc split: option.splits)
qed

lemma switch_context_Switched:
  assumes "switch_context site old n s = Switched s'"
  shows "\<exists>t. n = Some t \<and> threads s t \<noteq> None
           \<and> s' = s\<lparr>threads := saved_uc site old (threads s),
                    switches := switches s @ [switch_entry old t]\<rparr>"
  using assms
  by (auto simp add: switch_context_def saved_uc_def switch_entry_def split: option.splits)

lemma run_next_Switched:
  assumes "run_next site c s = Switched s'"
  shows "\<exists>n. threads s n \<noteq> None \<and>
           (if ready_queue s \<noteq> []
            then hd (ready_queue s) = Some n
               \<and> s' = s\<lparr>current_thd := (current_thd s)(c := Some n),
                        ready_queue := tl (ready_queue s),
                        threads := saved_uc site (current c s) (threads s),
                        switches := switches s @ [switch_entry (current c s) n]\<rparr>
            else idle_queue s \<noteq> [] \<and> hd (idle_queue s) = Some n
               \<and> s' = s\<lparr>current_thd := (current_thd s)(c := Some n),
                        idle_queue := tl (idle_queue s),
                        threads := saved_uc site (current c s) (threads s),
                        switches := switches s @ [switch_entry (current c s) n]\<rparr>)"
  using assms
  by (auto simp add: run_next_def Let_def current_def
       dest!: switch_context_Switched split: if_splits)

lemma run_next_frame:
  assumes "run_next site c s = Switched s'"
  shows "handles s' = handles s" "mutexes s' = mutexes s" "cvs s' = cvs s" "guard s' = guard s"
    "interrupts s' = interrupts s" "last_free_thread s' = last_free_thread s"
    "suspended_queue s' = suspended_queue s" "ipi_sent s' = ipi_sent s"
    "threads s' = saved_uc site (current c s) (threads s)"
  using run_next_Switched [OF assms] by (auto split: if_splits)

lemma saved_uc_simps [simp]:
  "map_option parent (saved_uc site old T t) = map_option parent (T t)"
  "map_option join_thd (saved_uc site old T t) = map_option join_thd (T t)"
  "(saved_uc site old T t = None) = (T t = None)"
  by (auto simp add: saved_uc_def split: option.splits)

lemma reclaim_parked:
  assumes "last_free_thread s = Some t" and "threads s t = Some ti"
    and "parent ti = Some h" and "handles s h = Some p"
  shows "reclaim s = Returned (s\<lparr>handles := (handles s)(h \<mapsto> None),
                                 threads := (threads s)(t := None),
                                 last_free_thread := None\<rparr>)"
  using assms by (simp add: reclaim_def impl_dtor_def then_do_def)

section \<open>Single references to threads\<close>

lemma single_ref_shrink:
  assumes "single_ref R" and "\<And>p t. cnt R' p t \<le> cnt R p t"
  shows "single_ref R'"
  unfolding single_ref_def
proof
  fix t
  from assms(1) obtain p where p: "cnt R p t \<le> 1" "\<forall>q. q \<noteq> p \<longrightarrow> cnt R q t = 0"
    unfolding single_ref_def by blast
  have "cnt R' p t \<le> 1" using p(1) assms(2) [of p t] by simp
  moreover have "\<forall>q. q \<noteq> p \<longrightarrow> cnt R' q t = 0"
  proof (intro allI impI)
    fix q assume "q \<noteq> p"
    with p(2) have "cnt R q t = 0" by simp
    with assms(2) [of q t] show "cnt R' q t = 0" by simp
  qed
  ultimately show "\<exists>p. cnt R' p t \<le> 1 \<and> (\<forall>q. q \<noteq> p \<longrightarrow> cnt R' q t = 0)" by blast
qed

lemma single_ref_pop_push:
  assumes sr: "single_ref R" and X: "R X = w # rest" and ne: "X \<noteq> Y"
  shows "single_ref (R(X := rest, Y := R Y @ [w]))"
  unfolding single_ref_def
proof
  fix t
  let ?R' = "R(X := rest, Y := R Y @ [w])"
  from sr obtain p where p: "cnt R p t \<le> 1" "\<forall>q. q \<noteq> p \<longrightarrow> cnt R q t = 0"
    unfolding single_ref_def by blast
  show "\<exists>p. cnt ?R' p t \<le> 1 \<and> (\<forall>q. q \<noteq> p \<longrightarrow> cnt ?R' q t = 0)"
  proof (cases "w = Some t")
    case True
    hence "0 < cnt R X t" using X by (simp add: cnt_def)
    hence px: "p = X" using p(2) by force
    hence rest0: "count_list rest (Some t) = 0" using p(1) X True by (simp add: cnt_def)
    have y0: "cnt R Y t = 0" using p(2) px ne by simp
    have "cnt ?R' Y t \<le> 1" using y0 True by (simp add: cnt_def)
    moreover have "\<forall>q. q \<noteq> Y \<longrightarrow> cnt ?R' q t = 0"
      using rest0 p(2) px by (auto simp add: cnt_def)
    ultimately show ?thesis by blast
  next
    case False
    have "cnt ?R' q t \<le> cnt R q t" for q
      using False X ne by (auto simp add: cnt_def)
    hence le: "\<And>q. cnt ?R' q t \<le> cnt R q t" .
    have "cnt ?R' p t \<le> 1" using le [of p] p(1) by simp
    moreover have "\<forall>q. q \<noteq> p \<longrightarrow> cnt ?R' q t = 0"
    proof (intro allI impI)
      fix q assume "q \<noteq> p"
      hence "cnt R q t = 0" using p(2) by simp
      thus "cnt ?R' q t = 0" using le [of q] by simp
    qed
    ultimately show ?thesis by blast
  qed
qed

lemma all_liveD: "all_live R T \<Longrightarrow> 0 < cnt R p t \<Longrightarrow> T t \<noteq> None"
  unfolding all_live_def by blast

lemma refs_ok_shrink:
  assumes "refs_ok R T" and "\<And>p t. cnt R' p t \<le> cnt R p t" and "\<And>t. T t \<noteq> None \<Longrightarrow> T' t \<noteq> None"
  shows "refs_ok R' T'"
proof -
  have "all_live R' T'"
    unfolding all_live_def
  proof (intro allI impI)
    fix p t assume "0 < cnt R' p t"
    with assms(2) [of p t] have "0 < cnt R p t" by simp
    with assms(1) have "T t \<noteq> None" by (auto simp add: refs_ok_def all_live_def)
    thus "T' t \<noteq> None" by (rule assms(3))
  qed
  with assms(1,2) show ?thesis
    by (auto simp add: refs_ok_def intro: single_ref_shrink)
qed

lemma refs_ok_pop_push:
  assumes "refs_ok R T" and X: "R X = w # rest" and "X \<noteq> Y"
  shows "refs_ok (R(X := rest, Y := R Y @ [w])) T"
proof -
  have live: "all_live R T" using assms(1) by (simp add: refs_ok_def)
  have "all_live (R(X := rest, Y := R Y @ [w])) T"
    unfolding all_live_def
  proof (intro allI impI)
    fix p t assume pos: "0 < cnt (R(X := rest, Y := R Y @ [w])) p t"
    have "0 < cnt R p t \<or> 0 < cnt R X t"
      using pos X by (auto simp add: cnt_def split: if_splits)
    thus "T t \<noteq> None" using all_liveD [OF live] by blast
  qed
  with assms show ?thesis
    by (auto simp add: refs_ok_def intro: single_ref_pop_push)
qed

lemma refs_ok_new:
  assumes ok: "refs_ok R T" and fresh: "T a = None"
  shows "refs_ok (R(Y := R Y @ [Some a])) (T(a \<mapsto> x))"
proof -
  have live: "all_live R T" using ok by (simp add: refs_ok_def)
  have a0: "cnt R p a = 0" for p
    using all_liveD [OF live, of p a] fresh by auto
  let ?R' = "R(Y := R Y @ [Some a])"
  have "single_ref ?R'"
    unfolding single_ref_def
  proof
    fix t
    from ok obtain p where p: "cnt R p t \<le> 1" "\<forall>q. q \<noteq> p \<longrightarrow> cnt R q t = 0"
      unfolding single_ref_def refs_ok_def by blast
    show "\<exists>p. cnt ?R' p t \<le> 1 \<and> (\<forall>q. q \<noteq> p \<longrightarrow> cnt ?R' q t = 0)"
    proof (cases "t = a")
      case True
      have "cnt ?R' Y t \<le> 1 \<and> (\<forall>q. q \<noteq> Y \<longrightarrow> cnt ?R' q t = 0)"
        using a0 True by (auto simp add: cnt_def)
      thus ?thesis by blast
    next
      case False
      have "cnt ?R' q t = cnt R q t" for q
        using False by (auto simp add: cnt_def)
      thus ?thesis using p by auto
    qed
  qed
  moreover have "all_live ?R' (T(a \<mapsto> x))"
    unfolding all_live_def
  proof (intro allI impI)
    fix p t assume pos: "0 < cnt ?R' p t"
    have "t = a \<or> 0 < cnt R p t"
      using pos by (auto simp add: cnt_def split: if_splits)
    thus "(T(a \<mapsto> x)) t \<noteq> None" using all_liveD [OF live, of p t] by auto
  qed
  ultimately show ?thesis by (simp add: refs_ok_def)
qed

lemma refs_ok_delete:
  assumes ok: "refs_ok R T" and F: "R F = [Some t]"
    and R': "\<And>p u. p \<noteq> F \<Longrightarrow> cnt R' p u \<le> cnt R p u" and F': "\<And>u. cnt R' F u = 0"
    and T': "\<And>u. u \<noteq> t \<Longrightarrow> T u \<noteq> None \<Longrightarrow> T' u \<noteq> None"
  shows "refs_ok R' T'"
proof -
  have le: "cnt R' p u \<le> cnt R p u" for p u
    using R' [of p u] F' [of u] by (cases "p = F") auto
  have sr: "single_ref R'"
    using ok le by (auto simp add: refs_ok_def intro: single_ref_shrink)
  from ok obtain p where p: "cnt R p t \<le> 1" "\<forall>q. q \<noteq> p \<longrightarrow> cnt R q t = 0"
    unfolding single_ref_def refs_ok_def by blast
  have "0 < cnt R F t" using F by (simp add: cnt_def)
  hence "p = F" using p(2) by force
  hence t0: "cnt R' q t = 0" for q
    using p(2) le [of q t] F' [of t] by (cases "q = F") auto
  have "all_live R' T'"
    unfolding all_live_def
  proof (intro allI impI)
    fix q u assume pos: "0 < cnt R' q u"
    hence "u \<noteq> t" using t0 [of q] by auto
    moreover have "all_live R T" using ok by (simp add: refs_ok_def)
    hence "T u \<noteq> None"
      using pos le [of q u] all_liveD [of R T q u] by simp
    ultimately show "T' u \<noteq> None" by (rule T')
  qed
  with sr show ?thesis by (simp add: refs_ok_def)
qed

lemma join_saved_uc [simp]:
  "(case saved_uc site old T t of None \<Rightarrow> [] | Some ti \<Rightarrow> join_thd ti)
     = (case T t of None \<Rightarrow> [] | Some ti \<Rightarrow> join_thd ti)"
  by (auto simp add: saved_uc_def split: option.splits)

lemma run_next_ok:
  assumes ok: "state_ok (s\<lparr>current_thd := (current_thd s)(c := None)\<rparr>)"
    and rn: "run_next site c s = Switched s'"
  shows "state_ok s'"
proof -
  let ?s0 = "s\<lparr>current_thd := (current_thd s)(c := None)\<rparr>"
  let ?R = "refs ?s0"
  from run_next_Switched [OF rn] obtain n where n: "threads s n \<noteq> None"
    and s': "if ready_queue s \<noteq> []
            then hd (ready_queue s) = Some n
               \<and> s' = s\<lparr>current_thd := (current_thd s)(c := Some n),
                        ready_queue := tl (ready_queue s),
                        threads := saved_uc site (current c s) (threads s),
                        switches := switches s @ [switch_entry (current c s) n]\<rparr>
            else idle_queue s \<noteq> [] \<and> hd (idle_queue s) = Some n
               \<and> s' = s\<lparr>current_thd := (current_thd s)(c := Some n),
                        idle_queue := tl (idle_queue s),
                        threads := saved_uc site (current c s) (threads s),
                        switches := switches s @ [switch_entry (current c s) n]\<rparr>"
    by blast
  have ok': "refs_ok ?R (threads s)" using ok by (simp add: state_ok_def)
  show ?thesis
  proof (cases "ready_queue s \<noteq> []")
    case True
    with s' have hd: "?R P_ready = Some n # tl (ready_queue s)"
      by (cases "ready_queue s") auto
    have 1: "refs_ok (?R(P_ready := tl (ready_queue s), P_cpu c := ?R (P_cpu c) @ [Some n])) (threads s)"
      by (rule refs_ok_pop_push [OF ok' hd]) simp
    show ?thesis
      unfolding state_ok_def
    proof (rule refs_ok_shrink [OF 1])
      fix p t
      show "cnt (refs s') p t \<le> cnt (?R(P_ready := tl (ready_queue s), P_cpu c := ?R (P_cpu c) @ [Some n])) p t"
        using s' True by (cases p) (auto simp add: cnt_def)
    next
      fix t assume "threads s t \<noteq> None"
      thus "threads s' t \<noteq> None" using s' True by auto
    qed
  next
    case False
    with s' have hd: "?R P_idle = Some n # tl (idle_queue s)"
      by (cases "idle_queue s") auto
    have 1: "refs_ok (?R(P_idle := tl (idle_queue s), P_cpu c := ?R (P_cpu c) @ [Some n])) (threads s)"
      by (rule refs_ok_pop_push [OF ok' hd]) simp
    show ?thesis
      unfolding state_ok_def
    proof (rule refs_ok_shrink [OF 1])
      fix p t
      show "cnt (refs s') p t \<le> cnt (?R(P_idle := tl (idle_queue s), P_cpu c := ?R (P_cpu c) @ [Some n])) p t"
        using s' False by (cases p) (auto simp add: cnt_def)
    next
      fix t assume "threads s t \<noteq> None"
      thus "threads s' t \<noteq> None" using s' False by auto
    qed
  qed
qed

section \<open>Well-formed mutexes\<close>

lemma result_then_do:
  "result (then_do r f) = Some s' \<longleftrightarrow>
     (\<exists>s1. r = Returned s1 \<and> result (f s1) = Some s') \<or> (\<exists>e. r = Threw e s') \<or> r = Switched s'"
  by (cases r) (auto simp add: then_do_def)

lemma lock_guard_result:
  assumes "lock_guard c body s = Some out" and "result out = Some s'"
  shows "\<not> guard s \<and>
     (\<exists>s2. result (body (s\<lparr>interrupts := (interrupts s)(c := False), guard := True\<rparr>)) = Some s2
          \<and> (s' = s2 \<or> s' = unlock c s2))"
proof -
  have g: "\<not> guard s" using assms(1) by (cases "guard s") (simp_all add: lock_guard_held)
  show ?thesis
    using assms g
    by (cases "body (s\<lparr>interrupts := (interrupts s)(c := False), guard := True\<rparr>)")
       (auto simp add: lock_guard_free)
qed

lemma lock_result:
  assumes "lock c s = Some s1"
  shows "\<not> guard s \<and> s1 = s\<lparr>interrupts := (interrupts s)(c := False), guard := True\<rparr>"
  using assms by (cases "guard s") (simp_all add: lock_held lock_free)

lemma run_next_result:
  "result (run_next site c s) = Some s' \<longleftrightarrow> run_next site c s = Switched s'"
  by (auto simp add: run_next_def switch_context_def Let_def split: option.splits)

lemma mutexes_ok_frame [simp]:
  "mutexes_ok (s\<lparr>guard := g\<rparr>) = mutexes_ok s"
  "mutexes_ok (s\<lparr>interrupts := i\<rparr>) = mutexes_ok s"
  "mutexes_ok (unlock c s) = mutexes_ok s"
  by (simp_all add: mutexes_ok_def unlock_def)

lemma mutexes_ok_eq: "mutexes s' = mutexes s \<Longrightarrow> mutexes_ok s' = mutexes_ok s"
  by (simp add: mutexes_ok_def)

lemma mutexes_ok_upd:
  "mutexes_ok s \<Longrightarrow> mutex_ok mi' \<Longrightarrow> mutexes s' = (mutexes s)(m \<mapsto> mi') \<Longrightarrow> mutexes_ok s'"
  by (simp add: mutexes_ok_def)

lemma mutex_impl_unlock_ok:
  assumes "mutexes_ok s" and "result (mutex_impl_unlock m c s) = Some s'"
  shows "mutexes_ok s'"
proof (cases "mutexes s m")
  case None
  with assms show ?thesis by (simp add: mutex_impl_unlock_def)
next
  case (Some mi)
  with assms(1) have ok: "mutex_ok mi" by (simp add: mutexes_ok_def)
  show ?thesis
  proof (cases "thd_q mi")
    case Nil
    with assms Some ok show ?thesis
      by (auto simp add: mutex_impl_unlock_def mutex_ok_def
          intro!: mutexes_ok_upd [OF assms(1)] split: if_splits)
  next
    case (Cons w ws)
    with assms Some ok show ?thesis
      by (auto simp add: mutex_impl_unlock_def mutex_ok_def
          intro!: mutexes_ok_upd [OF assms(1)] split: if_splits)
  qed
qed

lemma mutex_impl_lock_ok:
  assumes "mutexes_ok s" and "current c s \<noteq> None" and "result (mutex_impl_lock site m c s) = Some s'"
  shows "mutexes_ok s'"
proof (cases "mutexes s m")
  case None
  with assms show ?thesis by (simp add: mutex_impl_lock_def)
next
  case (Some mi)
  with assms(1) have ok: "mutex_ok mi" by (simp add: mutexes_ok_def)
  show ?thesis
  proof (cases "own_thd mi = None")
    case True
    with assms Some ok show ?thesis
      by (auto simp add: mutex_impl_lock_def mutex_ok_def intro!: mutexes_ok_upd [OF assms(1)])
  next
    case False
    with assms Some have rn: "run_next site c
        (s\<lparr>mutexes := (mutexes s)(m \<mapsto> mi\<lparr>thd_q := thd_q mi @ [current c s]\<rparr>)\<rparr>) = Switched s'"
      by (simp add: mutex_impl_lock_def run_next_result)
    have eq: "mutexes s' = (mutexes s)(m \<mapsto> mi\<lparr>thd_q := thd_q mi @ [current c s]\<rparr>)"
      using run_next_frame(2) [OF rn] by simp
    have "mutex_ok (mi\<lparr>thd_q := thd_q mi @ [current c s]\<rparr>)"
      using assms(2) ok False by (auto simp add: mutex_ok_def)
    thus ?thesis by (rule mutexes_ok_upd [OF assms(1) _ eq])
  qed
qed

lemma run_next_not_returned [simp]:
  "run_next site c s \<noteq> Returned s'" "run_next site c s \<noteq> Threw x s'"
  by (auto simp add: run_next_def switch_context_def Let_def split: option.splits)

lemma exit_body_not_returned [simp]:
  "exit_body c s \<noteq> Returned s'" "exit_body c s \<noteq> Threw x s'"
  by (auto simp add: exit_body_def Let_def split: option.splits)

lemma lock_guard_cases:
  assumes "lock_guard c body s = Some out"
  shows "\<not> guard s \<and>
     (case body (locked c s) of
        Returned s2 \<Rightarrow> out = Returned (unlock c s2)
      | Threw x s2 \<Rightarrow> out = Threw x (unlock c s2)
      | Switched s2 \<Rightarrow> out = Switched s2
      | Undefined u \<Rightarrow> out = Undefined u)"
proof -
  have g: "\<not> guard s" using assms by (cases "guard s") (simp_all add: lock_guard_held)
  show ?thesis
    using assms g by (auto simp add: lock_guard_free locked_def split: outcome.splits)
qed

lemma lock_then_cases:
  assumes "map_option body (lock c s) = Some out"
    and "\<And>s1 s'. body s1 \<noteq> Returned s'" and "\<And>s1 x s'. body s1 \<noteq> Threw x s'"
  shows "\<not> guard s \<and>
     (case body (locked c s) of
        Returned s2 \<Rightarrow> out = Returned (unlock c s2)
      | Threw x s2 \<Rightarrow> out = Threw x (unlock c s2)
      | Switched s2 \<Rightarrow> out = Switched s2
      | Undefined u \<Rightarrow> out = Undefined u)"
proof -
  have g: "\<not> guard s" using assms(1) by (cases "guard s") (simp_all add: lock_held)
  show ?thesis
    using assms g by (auto simp add: lock_free locked_def split: outcome.splits)
qed

lemma call_cases:
  assumes "call c e s = Some out"
  shows "\<not> guard s \<and>
     (case body_of c e (locked c s) of
        Returned s2 \<Rightarrow> out = Returned (unlock c s2)
      | Threw x s2 \<Rightarrow> out = Threw x (unlock c s2)
      | Switched s2 \<Rightarrow> out = Switched s2
      | Undefined u \<Rightarrow> out = Undefined u)"
proof (cases e)
  case Thread_exit
  with assms show ?thesis
    by (simp add: thread_start_exit_def) (rule lock_then_cases, simp_all)
next
  case Idle_loop
  with assms show ?thesis
    by (simp add: idle_func_def) (rule lock_then_cases, simp_all add: idle_body_def)
next
  case Cpu_init_run
  with assms show ?thesis
    by (simp add: cpu_init_run_def) (rule lock_then_cases, simp_all)
qed (use assms in \<open>simp_all add: thread_ctor_def thread_dtor_def thread_move_ctor_def
      thread_move_assign_def thread_join_def thread_yield_def timer_handler_def mutex_lock_def
      mutex_unlock_def cv_wait_def cv_signal_def cv_broadcast_def lock_guard_cases\<close>)

lemma drain_cv_fields [simp]:
  "ready_queue (drain_cv v q s) = ready_queue s @ q"
  "idle_queue (drain_cv v q s) = idle_queue s"
  "last_free_thread (drain_cv v q s) = last_free_thread s"
  "current_thd (drain_cv v q s) = current_thd s"
  "threads (drain_cv v q s) = threads s"
  "handles (drain_cv v q s) = handles s"
  "mutexes (drain_cv v q s) = mutexes s"
  "guard (drain_cv v q s) = guard s"
  "interrupts (drain_cv v q s) = interrupts s"
  "switches (drain_cv v q s) = switches s"
  by (induction q arbitrary: s; simp)+

lemma drain_cv_cvs:
  "cvs (drain_cv v q s) = (if q = [] then cvs s else (cvs s)(v \<mapsto> []))"
  by (induction q arbitrary: s) auto

lemma impl_ctor_result:
  assumes "result (impl_ctor p fn a s) = Some s'"
  shows "mutexes s' = mutexes s" "cvs s' = cvs s" "handles s' = handles s"
    "current_thd s' = current_thd s" "last_free_thread s' = last_free_thread s"
    "guard s' = guard s"
  using assms by (auto simp add: impl_ctor_def Let_def split: option.splits if_splits)

lemma reclaim_result:
  assumes "result (reclaim s) = Some s'"
  shows "mutexes s' = mutexes s" "cvs s' = cvs s" "current_thd s' = current_thd s"
    "ready_queue s' = ready_queue s" "idle_queue s' = idle_queue s" "guard s' = guard s"
    "last_free_thread s' = None" "reclaim s = Returned s'"
    "threads s' = (case last_free_thread s of None \<Rightarrow> threads s
                   | Some t0 \<Rightarrow> (threads s)(t0 := None))"
    "suspended_queue s' = suspended_queue s" "ipi_sent s' = ipi_sent s"
    "interrupts s' = interrupts s" "switches s' = switches s"
  using assms
  by (auto simp add: reclaim_def impl_dtor_def then_do_def split: option.splits)

lemma reclaim_not_thrown [simp]:
  "reclaim s \<noteq> Threw x s'" "reclaim s \<noteq> Switched s'"
  by (auto simp add: reclaim_def impl_dtor_def then_do_def split: option.splits)

lemma mutexes_frame:
  "result (impl_ctor p fn a s) = Some s' \<Longrightarrow> mutexes s' = mutexes s"
  "result (ctor_body h fn a s) = Some s' \<Longrightarrow> mutexes s' = mutexes s"
  "result (dtor_body h s) = Some s' \<Longrightarrow> mutexes s' = mutexes s"
  "result (move_body h other s) = Some s' \<Longrightarrow> mutexes s' = mutexes s"
  "result (move_assign_body h other s) = Some s' \<Longrightarrow> mutexes s' = mutexes s"
  "result (join_body h c s) = Some s' \<Longrightarrow> mutexes s' = mutexes s"
  "result (yield_body site c s) = Some s' \<Longrightarrow> mutexes s' = mutexes s"
  "result (exit_body c s) = Some s' \<Longrightarrow> mutexes s' = mutexes s"
  "result (idle_body c s) = Some s' \<Longrightarrow> mutexes s' = mutexes s"
  "result (run_next site c s) = Some s' \<Longrightarrow> mutexes s' = mutexes s"
  "result (cv_impl_signal v s) = Some s' \<Longrightarrow> mutexes s' = mutexes s"
  "result (cv_impl_broadcast v s) = Some s' \<Longrightarrow> mutexes s' = mutexes s"
  "result (reclaim s) = Some s' \<Longrightarrow> mutexes s' = mutexes s"
proof -
  show "result (impl_ctor p fn a s) = Some s' \<Longrightarrow> mutexes s' = mutexes s"
    by (rule impl_ctor_result)
  show "result (ctor_body h fn a s) = Some s' \<Longrightarrow> mutexes s' = mutexes s"
    using impl_ctor_result(1) [of "Some h" fn a s]
    by (auto simp add: ctor_body_def result_then_do)
  show "result (dtor_body h s) = Some s' \<Longrightarrow> mutexes s' = mutexes s"
    by (auto simp add: dtor_body_def split: option.splits)
  show mb: "result (move_body h other s) = Some s' \<Longrightarrow> mutexes s' = mutexes s"
    by (auto simp add: move_body_def Let_def split: option.splits if_splits)
  show "result (move_assign_body h other s) = Some s' \<Longrightarrow> mutexes s' = mutexes s"
    using mb by (auto simp add: move_assign_body_def split: option.splits)
  show "result (join_body h c s) = Some s' \<Longrightarrow> mutexes s' = mutexes s"
    by (auto simp add: join_body_def run_next_result dest!: run_next_frame(2) split: option.splits)
  show "result (yield_body site c s) = Some s' \<Longrightarrow> mutexes s' = mutexes s"
    by (auto simp add: yield_body_def run_next_result dest!: run_next_frame(2) split: if_splits)
  show "result (exit_body c s) = Some s' \<Longrightarrow> mutexes s' = mutexes s"
    by (auto simp add: exit_body_def run_next_result Let_def dest!: run_next_frame(2)
        split: option.splits)
  show "result (idle_body c s) = Some s' \<Longrightarrow> mutexes s' = mutexes s"
    by (auto simp add: idle_body_def run_next_result dest!: run_next_frame(2))
  show "result (run_next site c s) = Some s' \<Longrightarrow> mutexes s' = mutexes s"
    by (auto simp add: run_next_result dest!: run_next_frame(2))
  show "result (cv_impl_signal v s) = Some s' \<Longrightarrow> mutexes s' = mutexes s"
    by (auto simp add: cv_impl_signal_def split: option.splits if_splits)
  show "result (cv_impl_broadcast v s) = Some s' \<Longrightarrow> mutexes s' = mutexes s"
    by (auto simp add: cv_impl_broadcast_def split: option.splits)
  show "result (reclaim s) = Some s' \<Longrightarrow> mutexes s' = mutexes s"
    by (rule reclaim_result)
qed

lemma cv_impl_wait_ok:
  assumes "mutexes_ok s" and "result (cv_impl_wait v m c s) = Some s'"
  shows "mutexes_ok s'"
proof -
  from assms(2) consider
      (ret) s1 where "mutex_impl_unlock m c s = Returned s1"
        "result (case cvs s1 v of None \<Rightarrow> Undefined Dangling_pointer
           | Some q \<Rightarrow> run_next (Site_cv_wait m) c (s1\<lparr>cvs := (cvs s1)(v \<mapsto> q @ [current c s1])\<rparr>)) = Some s'"
    | (thr) e where "mutex_impl_unlock m c s = Threw e s'"
    | (sw) "mutex_impl_unlock m c s = Switched s'"
    unfolding cv_impl_wait_def result_then_do by blast
  thus ?thesis
  proof cases
    case ret
    have ok1: "mutexes_ok s1"
      by (rule mutex_impl_unlock_ok [OF assms(1), of m c]) (simp add: ret(1))
    from ret(2) obtain q where rn: "run_next (Site_cv_wait m) c
         (s1\<lparr>cvs := (cvs s1)(v \<mapsto> q @ [current c s1])\<rparr>) = Switched s'"
      by (auto simp add: run_next_result split: option.splits)
    have "mutexes s' = mutexes s1" using run_next_frame(2) [OF rn] by simp
    thus ?thesis using ok1 mutexes_ok_eq [of s' s1] by simp
  next
    case thr
    show ?thesis by (rule mutex_impl_unlock_ok [OF assms(1), of m c]) (simp add: thr)
  next
    case sw
    show ?thesis by (rule mutex_impl_unlock_ok [OF assms(1), of m c]) (simp add: sw)
  qed
qed

lemma body_mutexes_ok:
  assumes "mutexes_ok s" and "allowed c e s" and "result (body_of c e s) = Some s'"
  shows "mutexes_ok s'"
proof (cases e)
  case (Mutex_lock m)
  with assms show ?thesis using mutex_impl_lock_ok [of s c "Site_mutex_lock m" m s'] by simp
next
  case (Mutex_unlock m)
  with assms show ?thesis using mutex_impl_unlock_ok [of s m c s'] by simp
next
  case (Cv_wait v m)
  with assms show ?thesis using cv_impl_wait_ok [of s v m c s'] by simp
next
  case (Thread_ctor h fn a)
  with assms show ?thesis using mutexes_frame(2) [of h fn a s s'] mutexes_ok_eq [of s' s] by simp
next
  case (Thread_dtor h)
  with assms show ?thesis using mutexes_frame(3) [of h s s'] mutexes_ok_eq [of s' s] by simp
next
  case (Thread_move_ctor h other)
  with assms show ?thesis using mutexes_frame(4) [of h other s s'] mutexes_ok_eq [of s' s] by simp
next
  case (Thread_move_assign h other)
  with assms show ?thesis using mutexes_frame(5) [of h other s s'] mutexes_ok_eq [of s' s] by simp
next
  case (Thread_join h)
  with assms show ?thesis using mutexes_frame(6) [of h c s s'] mutexes_ok_eq [of s' s] by simp
next
  case Thread_yield
  with assms show ?thesis using mutexes_frame(7) [of Site_yield c s s'] mutexes_ok_eq [of s' s] by simp
next
  case Timer
  with assms show ?thesis using mutexes_frame(7) [of Site_timer c s s'] mutexes_ok_eq [of s' s] by simp
next
  case Thread_exit
  with assms show ?thesis using mutexes_frame(8) [of c s s'] mutexes_ok_eq [of s' s] by simp
next
  case Idle_loop
  with assms show ?thesis using mutexes_frame(9) [of c s s'] mutexes_ok_eq [of s' s] by simp
next
  case Cpu_init_run
  with assms show ?thesis using mutexes_frame(10) [of Site_init c s s'] mutexes_ok_eq [of s' s] by simp
next
  case (Cv_signal v)
  with assms show ?thesis using mutexes_frame(11) [of v s s'] mutexes_ok_eq [of s' s] by simp
next
  case (Cv_broadcast v)
  with assms show ?thesis using mutexes_frame(12) [of v s s'] mutexes_ok_eq [of s' s] by simp
qed

lemma resume_mutexes_ok:
  assumes "mutexes_ok s" and "result (resume c s) = Some s'"
  shows "mutexes_ok s'"
proof -
  from assms(2) obtain t ti where t: "current c s = Some t" "threads s t = Some ti"
    by (auto simp add: resume_def split: option.splits)
  show ?thesis
  proof (cases "uc ti")
    case (Entry fn)
    with assms(2) t have "result (then_do (reclaim s) (\<lambda>s1. Returned (unlock c s1))) = Some s'"
      by (simp add: resume_def thread_start_entry_def)
    then obtain s1 where "result (reclaim s) = Some s1" "s' = unlock c s1"
      by (cases "reclaim s") (auto simp add: then_do_def)
    thus ?thesis using assms(1) reclaim_result(1) [of s s1] mutexes_ok_eq [of s1 s] by simp
  next
    case (Saved site)
    with assms(2) t have "result (then_do (reclaim s) (after_run_next site c)) = Some s'"
      by (simp add: resume_def)
    then obtain s1 where s1: "reclaim s = Returned s1"
      and r: "result (after_run_next site c s1) = Some s'"
      by (cases "reclaim s") (auto simp add: then_do_def)
    have rs1: "result (reclaim s) = Some s1" using s1 by simp
    have ok1: "mutexes_ok s1" using assms(1) reclaim_result(1) [OF rs1] mutexes_ok_eq [of s1 s] by simp
    have cur1: "current c s1 \<noteq> None"
      using reclaim_result(3) [OF rs1] t by (simp add: current_def)
    show ?thesis
    proof (cases site)
      case (Site_cv_wait m)
      with r obtain s2 where "result (mutex_impl_lock (Site_cv_relock m) m c s1) = Some s2"
        "s' = s2 \<or> s' = unlock c s2"
        by (auto simp add: after_run_next_def result_then_do)
      thus ?thesis using mutex_impl_lock_ok [OF ok1 cur1, of "Site_cv_relock m" m s2] by auto
    qed (use r ok1 in \<open>auto simp add: after_run_next_def mutexes_ok_def unlock_def\<close>)
  qed
qed

lemma trans_mutexes_ok:
  assumes "trans cf cf'" and "mutexes_ok (state_of cf)"
  shows "mutexes_ok (state_of cf')"
  using assms
proof (cases rule: trans.cases)
  case (call_returned c e s s')
  from call_cases [OF call_returned(4)] obtain s2 where "body_of c e (locked c s) = Returned s2" "s' = unlock c s2"
    by (auto split: outcome.splits)
  moreover have "mutexes_ok (locked c s)" "allowed c e (locked c s)"
    using assms(2) call_returned by (cases e; simp add: locked_def mutexes_ok_def current_def)+
  ultimately show ?thesis
    using body_mutexes_ok [of "locked c s" c e s2] call_returned by simp
next
  case (call_threw c e s x s')
  from call_cases [OF call_threw(4)] obtain s2 where "body_of c e (locked c s) = Threw x s2" "s' = unlock c s2"
    by (auto split: outcome.splits)
  moreover have "mutexes_ok (locked c s)" "allowed c e (locked c s)"
    using assms(2) call_threw by (cases e; simp add: locked_def mutexes_ok_def current_def)+
  ultimately show ?thesis
    using body_mutexes_ok [of "locked c s" c e s2] call_threw by simp
next
  case (call_switched c e s s')
  from call_cases [OF call_switched(4)] have "body_of c e (locked c s) = Switched s'"
    by (auto split: outcome.splits)
  moreover have "mutexes_ok (locked c s)" "allowed c e (locked c s)"
    using assms(2) call_switched by (cases e; simp add: locked_def mutexes_ok_def current_def)+
  ultimately show ?thesis
    using body_mutexes_ok [of "locked c s" c e s'] call_switched by simp
next
  case (resume_returned c s s')
  thus ?thesis using assms(2) resume_mutexes_ok [of s c s'] by simp
next
  case (resume_switched c s s')
  thus ?thesis using assms(2) resume_mutexes_ok [of s c s'] by simp
qed

lemma reach_mutexes_ok:
  assumes "trans\<^sup>*\<^sup>* cf cf'" and "mutexes_ok (state_of cf)"
  shows "mutexes_ok (state_of cf')"
  using assms by (induction rule: rtranclp_induct) (auto intro: trans_mutexes_ok)

section \<open>The operations keep the references single\<close>

lemma state_ok_move:
  assumes "state_ok s" and "refs s X = w # rest" and "X \<noteq> Y"
    and "\<And>p t. cnt (refs s') p t \<le> cnt ((refs s)(X := rest, Y := refs s Y @ [w])) p t"
    and "\<And>t. threads s t \<noteq> None \<Longrightarrow> threads s' t \<noteq> None"
  shows "state_ok s'"
  unfolding state_ok_def
  using refs_ok_shrink [OF refs_ok_pop_push [OF assms(1) [unfolded state_ok_def] assms(2,3)] assms(4,5)]
  by simp

lemma state_ok_same:
  assumes "state_ok s" and "\<And>p t. cnt (refs s') p t \<le> cnt (refs s) p t"
    and "\<And>t. threads s t \<noteq> None \<Longrightarrow> threads s' t \<noteq> None"
  shows "state_ok s'"
  unfolding state_ok_def
  using refs_ok_shrink [OF assms(1) [unfolded state_ok_def] assms(2,3)] by simp

lemma refs_eqI: "(\<And>p. refs s1 p = refs s2 p) \<Longrightarrow> refs s1 = refs s2"
  by (rule ext)

lemma state_ok_cong: "refs s1 = refs s2 \<Longrightarrow> threads s1 = threads s2 \<Longrightarrow> state_ok s1 = state_ok s2"
  by (simp add: state_ok_def)

lemma state_ok_guard [simp]: "state_ok (s\<lparr>guard := g\<rparr>) = state_ok s"
  by (rule state_ok_cong, rule refs_eqI, case_tac p, simp_all)

lemma state_ok_interrupts [simp]: "state_ok (s\<lparr>interrupts := i\<rparr>) = state_ok s"
  by (rule state_ok_cong, rule refs_eqI, case_tac p, simp_all)

lemma state_ok_handles [simp]: "state_ok (s\<lparr>handles := hs\<rparr>) = state_ok s"
  by (rule state_ok_cong, rule refs_eqI, case_tac p, simp_all)

lemma state_ok_suspended [simp]: "state_ok (s\<lparr>suspended_queue := sq\<rparr>) = state_ok s"
  by (rule state_ok_cong, rule refs_eqI, case_tac p, simp_all)

lemma state_ok_ipi [simp]: "state_ok (s\<lparr>ipi_sent := ip\<rparr>) = state_ok s"
  by (rule state_ok_cong, rule refs_eqI, case_tac p, simp_all)

lemma state_ok_switches [simp]: "state_ok (s\<lparr>switches := sw\<rparr>) = state_ok s"
  by (rule state_ok_cong, rule refs_eqI, case_tac p, simp_all)

lemma state_ok_wakeup [simp]: "state_ok (wakeup_one_cpu s) = state_ok s"
  by (simp add: wakeup_one_cpu_def)

lemma state_ok_unlock [simp]: "state_ok (unlock c s) = state_ok s" "state_ok (locked c s) = state_ok s"
  by (simp_all add: unlock_def locked_def)

text \<open>Parking the current thread of CPU c at place Y, then switching.\<close>

lemma park_switch_ok:
  assumes ok: "state_ok s" and Y: "Y \<noteq> P_cpu c"
    and le: "\<And>p t. p \<noteq> P_cpu c \<Longrightarrow> cnt (refs s1) p t
               \<le> cnt ((refs s)(Y := refs s Y @ [current_thd s c])) p t"
    and live: "\<And>t. threads s t \<noteq> None \<Longrightarrow> threads s1 t \<noteq> None"
    and rn: "run_next site c s1 = Switched s'"
  shows "state_ok s'"
proof (rule run_next_ok [OF _ rn])
  let ?v = "s1\<lparr>current_thd := (current_thd s1)(c := None)\<rparr>"
  show "state_ok ?v"
  proof (rule state_ok_move [OF ok, of "P_cpu c" "current_thd s c" "[]" Y])
    show "refs s (P_cpu c) = [current_thd s c]" by simp
    show "P_cpu c \<noteq> Y" using Y by simp
    fix p t
    show "cnt (refs ?v) p t \<le> cnt ((refs s)(P_cpu c := [], Y := refs s Y @ [current_thd s c])) p t"
    proof (cases "p = P_cpu c")
      case True
      thus ?thesis by (simp add: cnt_def)
    next
      case False
      have "cnt (refs ?v) p t = cnt (refs s1) p t"
        using False by (cases p) (simp_all add: cnt_def)
      also have "\<dots> \<le> cnt ((refs s)(Y := refs s Y @ [current_thd s c])) p t"
        by (rule le [OF False])
      also have "\<dots> = cnt ((refs s)(P_cpu c := [], Y := refs s Y @ [current_thd s c])) p t"
        using False by (simp add: cnt_def)
      finally show ?thesis .
    qed
  next
    fix t assume "threads s t \<noteq> None"
    thus "threads ?v t \<noteq> None" using live by simp
  qed
qed

lemma yield_body_ok:
  assumes "state_ok s" and "result (yield_body site c s) = Some s'"
  shows "state_ok s'"
proof (cases "ready_queue s = []")
  case True
  with assms show ?thesis by (simp add: yield_body_def)
next
  case False
  with assms(2) have rn: "run_next site c (s\<lparr>ready_queue := ready_queue s @ [current c s]\<rparr>) = Switched s'"
    by (simp add: yield_body_def run_next_result)
  show ?thesis
    by (rule park_switch_ok [OF assms(1) _ _ _ rn, of P_ready])
       (simp_all add: current_def cnt_def, case_tac p, simp_all)
qed

lemma state_ok_new:
  assumes "state_ok s" and "threads s a = None"
    and "\<And>p t. cnt (refs s') p t \<le> cnt ((refs s)(Y := refs s Y @ [Some a])) p t"
    and "\<And>t. t = a \<or> threads s t \<noteq> None \<Longrightarrow> threads s' t \<noteq> None"
  shows "state_ok s'"
  unfolding state_ok_def
proof (rule refs_ok_shrink [OF refs_ok_new [OF assms(1) [unfolded state_ok_def] assms(2), of Y x]])
  fix p t show "cnt (refs s') p t \<le> cnt ((refs s)(Y := refs s Y @ [Some a])) p t" by (rule assms(3))
next
  fix t assume "((threads s)(a \<mapsto> x)) t \<noteq> None"
  hence "t = a \<or> threads s t \<noteq> None" by (auto split: if_splits)
  thus "threads s' t \<noteq> None" by (rule assms(4))
qed

lemma ctor_body_ok:
  assumes ok: "state_ok s" and fresh: "threads s a = None"
    and r: "result (ctor_body h fn a s) = Some s'"
  shows "state_ok s'"
proof (cases fn)
  case None
  with r ok show ?thesis by (simp add: ctor_body_def impl_ctor_def then_do_def)
next
  case (Some f)
  show ?thesis
  proof (cases "f = Idle_func")
    case True
    with r Some have s': "s' = s\<lparr>threads := (threads s)(a \<mapsto> \<lparr>parent = Some h, uc = Entry f, join_thd = []\<rparr>),
        idle_queue := idle_queue s @ [Some a], handles := (handles s)(h \<mapsto> Some a)\<rparr>"
      by (simp add: ctor_body_def impl_ctor_def then_do_def Let_def)
    show ?thesis
    proof (rule state_ok_new [OF ok fresh, of _ P_idle])
      fix p t show "cnt (refs s') p t \<le> cnt ((refs s)(P_idle := refs s P_idle @ [Some a])) p t"
        using fresh by (cases p) (auto simp add: s' cnt_def)
    qed (auto simp add: s')
  next
    case False
    with r Some have s': "s' = (wakeup_one_cpu (s\<lparr>threads := (threads s)(a \<mapsto> \<lparr>parent = Some h, uc = Entry f, join_thd = []\<rparr>),
        ready_queue := ready_queue s @ [Some a]\<rparr>))\<lparr>handles := (handles s)(h \<mapsto> Some a)\<rparr>"
      by (simp add: ctor_body_def impl_ctor_def then_do_def Let_def)
    show ?thesis
    proof (rule state_ok_new [OF ok fresh, of _ P_ready])
      fix p t show "cnt (refs s') p t \<le> cnt ((refs s)(P_ready := refs s P_ready @ [Some a])) p t"
        using fresh by (cases p) (auto simp add: s' cnt_def)
    qed (auto simp add: s')
  qed
qed

lemma dtor_body_ok:
  assumes ok: "state_ok s" and r: "result (dtor_body h s) = Some s'"
  shows "state_ok s'"
proof (rule state_ok_same [OF ok])
  fix p t show "cnt (refs s') p t \<le> cnt (refs s) p t"
    using r by (cases p) (auto simp add: dtor_body_def cnt_def split: option.splits if_splits)
next
  fix t assume "threads s t \<noteq> None"
  thus "threads s' t \<noteq> None"
    using r by (auto simp add: dtor_body_def split: option.splits if_splits)
qed

lemma move_body_ok:
  assumes ok: "state_ok s" and r: "result (move_body h other s) = Some s'"
  shows "state_ok s'"
proof (rule state_ok_same [OF ok])
  fix p t show "cnt (refs s') p t \<le> cnt (refs s) p t"
    using r by (cases p) (auto simp add: move_body_def cnt_def Let_def split: option.splits if_splits)
next
  fix t assume "threads s t \<noteq> None"
  thus "threads s' t \<noteq> None"
    using r by (auto simp add: move_body_def Let_def split: option.splits if_splits)
qed

lemma move_assign_body_ok:
  assumes ok: "state_ok s" and r: "result (move_assign_body h other s) = Some s'"
  shows "state_ok s'"
  using move_body_ok [OF ok, of h other s'] r
  by (auto simp add: move_assign_body_def split: option.splits)

lemma join_body_ok:
  assumes ok: "state_ok s" and r: "result (join_body h c s) = Some s'"
  shows "state_ok s'"
proof -
  from r consider (null) "s' = s"
    | (push) t ti where "threads s t = Some ti"
        "run_next Site_join c (s\<lparr>threads := (threads s)(t \<mapsto> ti\<lparr>join_thd := join_thd ti @ [current c s]\<rparr>)\<rparr>) = Switched s'"
    by (auto simp add: join_body_def run_next_result split: option.splits)
  thus ?thesis
  proof cases
    case null
    with ok show ?thesis by simp
  next
    case push
    show ?thesis
    proof (rule park_switch_ok [OF ok _ _ _ push(2), of "P_join t"])
      fix p u assume "p \<noteq> P_cpu c"
      thus "cnt (refs (s\<lparr>threads := (threads s)(t \<mapsto> ti\<lparr>join_thd := join_thd ti @ [current c s]\<rparr>)\<rparr>)) p u
            \<le> cnt ((refs s)(P_join t := refs s (P_join t) @ [current_thd s c])) p u"
        using push(1) by (cases p) (auto simp add: cnt_def current_def)
    qed auto
  qed
qed

lemma idle_body_ok:
  assumes ok: "state_ok s" and r: "result (idle_body c s) = Some s'"
  shows "state_ok s'"
proof -
  from r have rn: "run_next Site_idle c (s\<lparr>idle_queue := idle_queue s @ [current c s]\<rparr>) = Switched s'"
    by (simp add: idle_body_def run_next_result)
  show ?thesis
  proof (rule park_switch_ok [OF ok _ _ _ rn, of P_idle])
    fix p u assume "p \<noteq> P_cpu c"
    thus "cnt (refs (s\<lparr>idle_queue := idle_queue s @ [current c s]\<rparr>)) p u
          \<le> cnt ((refs s)(P_idle := refs s P_idle @ [current_thd s c])) p u"
      by (cases p) (auto simp add: cnt_def current_def)
  qed auto
qed

lemma init_run_ok:
  assumes ok: "state_ok s" and r: "result (run_next Site_init c s) = Some s'"
  shows "state_ok s'"
proof (rule run_next_ok)
  show "run_next Site_init c s = Switched s'" using r by (simp add: run_next_result)
  show "state_ok (s\<lparr>current_thd := (current_thd s)(c := None)\<rparr>)"
  proof (rule state_ok_same [OF ok])
    fix p t show "cnt (refs (s\<lparr>current_thd := (current_thd s)(c := None)\<rparr>)) p t \<le> cnt (refs s) p t"
      by (cases p) (auto simp add: cnt_def)
  qed auto
qed

lemma drain_join_ok:
  assumes "state_ok s" and "threads s t0 = Some ti" and "join_thd ti = js"
  shows "state_ok (drain_join t0 js s)"
  using assms
proof (induction js arbitrary: s ti)
  case Nil
  thus ?case by simp
next
  case (Cons p ps)
  let ?s1 = "pop_join t0 (wakeup_one_cpu (s\<lparr>ready_queue := ready_queue s @ [p]\<rparr>))"
  have ok1: "state_ok ?s1"
  proof (rule state_ok_move [OF Cons.prems(1), of "P_join t0" p ps P_ready])
    show "refs s (P_join t0) = p # ps" using Cons.prems by simp
    fix q u
    show "cnt (refs ?s1) q u \<le> cnt ((refs s)(P_join t0 := ps, P_ready := refs s P_ready @ [p])) q u"
      using Cons.prems by (cases q) (auto simp add: cnt_def pop_join_def)
  next
    fix u assume "threads s u \<noteq> None"
    thus "threads ?s1 u \<noteq> None" using Cons.prems by (auto simp add: pop_join_def)
  qed simp
  have "threads ?s1 t0 = Some (ti\<lparr>join_thd := ps\<rparr>)"
    using Cons.prems by (simp add: pop_join_def)
  from Cons.IH [OF ok1 this] show ?case by simp
qed

lemma exit_body_ok:
  assumes ok: "state_ok s" and r: "result (exit_body c s) = Some s'"
  shows "state_ok s'"
proof -
  from r obtain t ti where t: "current c s = Some t" "threads s t = Some ti"
    by (auto simp add: exit_body_def split: option.splits)
  let ?s1 = "drain_join t (join_thd ti) s"
  have ok1: "state_ok ?s1" by (rule drain_join_ok [OF ok t(2) refl])
  from r t obtain s2 where rn: "run_next Site_exit c s2 = Switched s'"
    and f: "last_free_thread s2 = Some t" "ready_queue s2 = ready_queue ?s1"
      "idle_queue s2 = idle_queue ?s1" "current_thd s2 = current_thd ?s1"
      "threads s2 = threads ?s1" "mutexes s2 = mutexes ?s1" "cvs s2 = cvs ?s1"
    by (cases "parent ti")
       (auto simp add: exit_body_def Let_def run_next_result split: option.splits)
  show ?thesis
  proof (rule park_switch_ok [OF ok1 _ _ _ rn, of P_free])
    fix p u assume "p \<noteq> P_cpu c"
    thus "cnt (refs s2) p u
          \<le> cnt ((refs ?s1)(P_free := refs ?s1 P_free @ [current_thd ?s1 c])) p u"
      using t(1) f by (cases p) (auto simp add: cnt_def current_def)
  qed (simp_all add: f)
qed

lemma mutex_impl_lock_state_ok:
  assumes ok: "state_ok s" and r: "result (mutex_impl_lock site m c s) = Some s'"
  shows "state_ok s'"
proof -
  from r obtain mi where mi: "mutexes s m = Some mi"
    by (auto simp add: mutex_impl_lock_def split: option.splits)
  show ?thesis
  proof (cases "own_thd mi = None")
    case True
    with r mi have s': "s' = s\<lparr>mutexes := (mutexes s)(m \<mapsto> mi\<lparr>own_thd := current c s\<rparr>)\<rparr>"
      by (simp add: mutex_impl_lock_def)
    show ?thesis
    proof (rule state_ok_same [OF ok])
      fix p t show "cnt (refs s') p t \<le> cnt (refs s) p t"
        using mi by (cases p) (auto simp add: s' cnt_def)
    qed (simp add: s')
  next
    case False
    with r mi have rn: "run_next site c
        (s\<lparr>mutexes := (mutexes s)(m \<mapsto> mi\<lparr>thd_q := thd_q mi @ [current c s]\<rparr>)\<rparr>) = Switched s'"
      by (simp add: mutex_impl_lock_def run_next_result)
    show ?thesis
    proof (rule park_switch_ok [OF ok _ _ _ rn, of "P_mutex m"])
      fix p u assume "p \<noteq> P_cpu c"
      thus "cnt (refs (s\<lparr>mutexes := (mutexes s)(m \<mapsto> mi\<lparr>thd_q := thd_q mi @ [current c s]\<rparr>)\<rparr>)) p u
            \<le> cnt ((refs s)(P_mutex m := refs s (P_mutex m) @ [current_thd s c])) p u"
        using mi by (cases p) (auto simp add: cnt_def current_def)
    qed auto
  qed
qed

lemma mutex_impl_unlock_state_ok:
  assumes ok: "state_ok s" and r: "result (mutex_impl_unlock m c s) = Some s'"
  shows "state_ok s'"
proof -
  from r obtain mi where mi: "mutexes s m = Some mi"
    by (auto simp add: mutex_impl_unlock_def split: option.splits)
  show ?thesis
  proof (cases "own_thd mi = current c s")
    case False
    with r mi ok show ?thesis by (simp add: mutex_impl_unlock_def)
  next
    case True
    show ?thesis
    proof (cases "thd_q mi")
      case Nil
      with r mi True have s': "s' = s\<lparr>mutexes := (mutexes s)(m \<mapsto> mi\<lparr>own_thd := None\<rparr>)\<rparr>"
        by (simp add: mutex_impl_unlock_def)
      show ?thesis
      proof (rule state_ok_same [OF ok])
        fix p t show "cnt (refs s') p t \<le> cnt (refs s) p t"
          using mi by (cases p) (auto simp add: s' cnt_def)
      qed (simp add: s')
    next
      case (Cons w ws)
      let ?s1 = "s\<lparr>ready_queue := ready_queue s @ [w],
                   mutexes := (mutexes s)(m \<mapsto> mi\<lparr>own_thd := w, thd_q := ws\<rparr>)\<rparr>"
      from r mi True Cons have s': "s' = wakeup_one_cpu ?s1"
        by (simp add: mutex_impl_unlock_def)
      have "state_ok ?s1"
      proof (rule state_ok_move [OF ok, of "P_mutex m" w ws P_ready])
        show "refs s (P_mutex m) = w # ws" using mi Cons by simp
        fix p t
        show "cnt (refs ?s1) p t \<le> cnt ((refs s)(P_mutex m := ws, P_ready := refs s P_ready @ [w])) p t"
          using mi by (cases p) (auto simp add: cnt_def)
      qed auto
      thus ?thesis by (simp add: s')
    qed
  qed
qed

lemma cv_impl_wait_state_ok:
  assumes ok: "state_ok s" and r: "result (cv_impl_wait v m c s) = Some s'"
  shows "state_ok s'"
proof -
  from r consider
      (ret) s1 where "mutex_impl_unlock m c s = Returned s1"
        "result (case cvs s1 v of None \<Rightarrow> Undefined Dangling_pointer
           | Some q \<Rightarrow> run_next (Site_cv_wait m) c (s1\<lparr>cvs := (cvs s1)(v \<mapsto> q @ [current c s1])\<rparr>)) = Some s'"
    | (thr) e where "mutex_impl_unlock m c s = Threw e s'"
    | (sw) "mutex_impl_unlock m c s = Switched s'"
    unfolding cv_impl_wait_def result_then_do by blast
  thus ?thesis
  proof cases
    case ret
    have ok1: "state_ok s1"
      by (rule mutex_impl_unlock_state_ok [OF ok, of m c]) (simp add: ret(1))
    from ret(2) obtain q where q: "cvs s1 v = Some q"
      and rn: "run_next (Site_cv_wait m) c (s1\<lparr>cvs := (cvs s1)(v \<mapsto> q @ [current c s1])\<rparr>) = Switched s'"
      by (auto simp add: run_next_result split: option.splits)
    show ?thesis
    proof (rule park_switch_ok [OF ok1 _ _ _ rn, of "P_cv v"])
      fix p u assume "p \<noteq> P_cpu c"
      thus "cnt (refs (s1\<lparr>cvs := (cvs s1)(v \<mapsto> q @ [current c s1])\<rparr>)) p u
            \<le> cnt ((refs s1)(P_cv v := refs s1 (P_cv v) @ [current_thd s1 c])) p u"
        using q by (cases p) (auto simp add: cnt_def current_def)
    qed auto
  next
    case thr
    show ?thesis by (rule mutex_impl_unlock_state_ok [OF ok, of m c]) (simp add: thr)
  next
    case sw
    show ?thesis by (rule mutex_impl_unlock_state_ok [OF ok, of m c]) (simp add: sw)
  qed
qed

lemma cv_wake_ok:
  assumes ok: "state_ok s" and q: "cvs s v = Some (w # ws)"
  shows "state_ok (wakeup_one_cpu (s\<lparr>ready_queue := ready_queue s @ [w], cvs := (cvs s)(v \<mapsto> ws)\<rparr>))"
proof -
  let ?s1 = "s\<lparr>ready_queue := ready_queue s @ [w], cvs := (cvs s)(v \<mapsto> ws)\<rparr>"
  have "state_ok ?s1"
  proof (rule state_ok_move [OF ok, of "P_cv v" w ws P_ready])
    show "refs s (P_cv v) = w # ws" using q by simp
    fix p t
    show "cnt (refs ?s1) p t \<le> cnt ((refs s)(P_cv v := ws, P_ready := refs s P_ready @ [w])) p t"
      by (cases p) (auto simp add: cnt_def)
  qed auto
  thus ?thesis by simp
qed

lemma cv_impl_signal_state_ok:
  assumes ok: "state_ok s" and r: "result (cv_impl_signal v s) = Some s'"
  shows "state_ok s'"
proof -
  from r obtain q where q: "cvs s v = Some q"
    by (auto simp add: cv_impl_signal_def split: option.splits)
  show ?thesis
  proof (cases q)
    case Nil
    with r q ok show ?thesis by (simp add: cv_impl_signal_def)
  next
    case (Cons w ws)
    with r q have "s' = wakeup_one_cpu (s\<lparr>ready_queue := ready_queue s @ [w], cvs := (cvs s)(v \<mapsto> ws)\<rparr>)"
      by (simp add: cv_impl_signal_def)
    thus ?thesis using cv_wake_ok [OF ok, of v w ws] q Cons by simp
  qed
qed

lemma drain_cv_ok:
  assumes "state_ok s" and "cvs s v = Some q"
  shows "state_ok (drain_cv v q s)"
  using assms
proof (induction q arbitrary: s)
  case Nil
  thus ?case by simp
next
  case (Cons w ws)
  let ?s1 = "wakeup_one_cpu (s\<lparr>ready_queue := ready_queue s @ [w], cvs := (cvs s)(v \<mapsto> ws)\<rparr>)"
  have "state_ok ?s1" by (rule cv_wake_ok [OF Cons.prems])
  moreover have "cvs ?s1 v = Some ws" by simp
  ultimately show ?case using Cons.IH [of ?s1] by simp
qed

lemma cv_impl_broadcast_state_ok:
  assumes ok: "state_ok s" and r: "result (cv_impl_broadcast v s) = Some s'"
  shows "state_ok s'"
  using r drain_cv_ok [OF ok, of v]
  by (auto simp add: cv_impl_broadcast_def split: option.splits)

lemma reclaim_state_ok:
  assumes ok: "state_ok s" and r: "reclaim s = Returned s'"
  shows "state_ok s'"
proof -
  have rr: "result (reclaim s) = Some s'" using r by simp
  note f = reclaim_result [OF rr]
  show ?thesis
  proof (cases "last_free_thread s")
    case None
    show ?thesis
    proof (rule state_ok_same [OF ok])
      fix p t show "cnt (refs s') p t \<le> cnt (refs s) p t"
        using None f by (cases p) (auto simp add: cnt_def)
    qed (simp add: f None)
  next
    case (Some t0)
    show ?thesis
      unfolding state_ok_def
    proof (rule refs_ok_delete [OF ok [unfolded state_ok_def], of P_free t0])
      show "refs s P_free = [Some t0]" using Some by simp
    next
      fix p u assume "p \<noteq> P_free"
      thus "cnt (refs s') p u \<le> cnt (refs s) p u"
        using Some f by (cases p) (auto simp add: cnt_def)
    next
      fix u show "cnt (refs s') P_free u = 0" by (simp add: f cnt_def)
    next
      fix u assume "u \<noteq> t0" "threads s u \<noteq> None"
      thus "threads s' u \<noteq> None" by (simp add: f Some)
    qed
  qed
qed

lemma resume_state_ok:
  assumes ok: "state_ok s" and r: "result (resume c s) = Some s'"
  shows "state_ok s'"
proof -
  from r obtain t ti where t: "current c s = Some t" "threads s t = Some ti"
    by (auto simp add: resume_def split: option.splits)
  show ?thesis
  proof (cases "uc ti")
    case (Entry fn)
    with r t have "result (then_do (reclaim s) (\<lambda>s1. Returned (unlock c s1))) = Some s'"
      by (simp add: resume_def thread_start_entry_def)
    then obtain s1 where "reclaim s = Returned s1" "s' = unlock c s1"
      by (cases "reclaim s") (auto simp add: then_do_def)
    thus ?thesis using reclaim_state_ok [OF ok, of s1] by simp
  next
    case (Saved site)
    with r t have "result (then_do (reclaim s) (after_run_next site c)) = Some s'"
      by (simp add: resume_def)
    then obtain s1 where s1: "reclaim s = Returned s1"
      and r1: "result (after_run_next site c s1) = Some s'"
      by (cases "reclaim s") (auto simp add: then_do_def)
    have ok1: "state_ok s1" by (rule reclaim_state_ok [OF ok s1])
    show ?thesis
    proof (cases site)
      case (Site_cv_wait m)
      with r1 obtain s2 where "result (mutex_impl_lock (Site_cv_relock m) m c s1) = Some s2"
        "s' = s2 \<or> s' = unlock c s2"
        by (auto simp add: after_run_next_def result_then_do)
      thus ?thesis using mutex_impl_lock_state_ok [OF ok1, of "Site_cv_relock m" m c s2] by auto
    qed (use r1 ok1 in \<open>auto simp add: after_run_next_def\<close>)
  qed
qed

lemma body_state_ok:
  assumes "state_ok s" and "allowed c e s" and "result (body_of c e s) = Some s'"
  shows "state_ok s'"
proof (cases e)
  case (Mutex_lock m)
  with assms show ?thesis using mutex_impl_lock_state_ok [of s "Site_mutex_lock m" m c s'] by simp
next
  case (Mutex_unlock m)
  with assms show ?thesis using mutex_impl_unlock_state_ok [of s m c s'] by simp
next
  case (Cv_wait v m)
  with assms show ?thesis using cv_impl_wait_state_ok [of s v m c s'] by simp
next
  case (Thread_ctor h fn a)
  with assms show ?thesis using ctor_body_ok [of s a h fn s'] by simp
next
  case (Thread_dtor h)
  with assms show ?thesis using dtor_body_ok [of s h s'] by simp
next
  case (Thread_move_ctor h other)
  with assms show ?thesis using move_body_ok [of s h other s'] by simp
next
  case (Thread_move_assign h other)
  with assms show ?thesis using move_assign_body_ok [of s h other s'] by simp
next
  case (Thread_join h)
  with assms show ?thesis using join_body_ok [of s h c s'] by simp
next
  case Thread_yield
  with assms show ?thesis using yield_body_ok [of s Site_yield c s'] by simp
next
  case Timer
  with assms show ?thesis using yield_body_ok [of s Site_timer c s'] by simp
next
  case Thread_exit
  with assms show ?thesis using exit_body_ok [of s c s'] by simp
next
  case Idle_loop
  with assms show ?thesis using idle_body_ok [of s c s'] by simp
next
  case Cpu_init_run
  with assms show ?thesis using init_run_ok [of s c s'] by simp
next
  case (Cv_signal v)
  with assms show ?thesis using cv_impl_signal_state_ok [of s v s'] by simp
next
  case (Cv_broadcast v)
  with assms show ?thesis using cv_impl_broadcast_state_ok [of s v s'] by simp
qed

section \<open>Exited threads\<close>

lemma parked0_imp_parked1: "parked0 s \<Longrightarrow> parked1 s"
  by (simp add: parked0_def parked1_def)

lemma parked0_cong:
  "last_free_thread s' = last_free_thread s \<Longrightarrow> (\<And>t. exited s' t \<Longrightarrow> exited s t)
     \<Longrightarrow> parked0 s \<Longrightarrow> parked0 s'"
  by (auto simp add: parked0_def)

lemma exited_saved_uc:
  "exited (s\<lparr>threads := saved_uc site old (threads s)\<rparr>) t \<longleftrightarrow>
     (if old = Some t \<and> threads s t \<noteq> None then site = Site_exit else exited s t)"
  by (auto simp add: exited_def saved_uc_def split: option.splits)

lemma run_next_exited:
  assumes "run_next site c s = Switched s'"
  shows "exited s' t \<longleftrightarrow> (if current c s = Some t \<and> threads s t \<noteq> None then site = Site_exit else exited s t)"
  using run_next_frame(9) [OF assms]
  by (auto simp add: exited_def saved_uc_def split: option.splits)

lemma run_next_parked0:
  assumes "parked0 s" and "site \<noteq> Site_exit" and "run_next site c s = Switched s'"
  shows "parked0 s'"
  using assms run_next_exited [OF assms(3)] run_next_frame(6) [OF assms(3)]
  by (auto simp add: parked0_def split: if_splits)

lemma parked0_frame [simp]:
  "parked0 (s\<lparr>guard := g\<rparr>) = parked0 s"
  "parked0 (s\<lparr>interrupts := i\<rparr>) = parked0 s"
  "parked0 (s\<lparr>handles := hs\<rparr>) = parked0 s"
  "parked0 (s\<lparr>suspended_queue := sq\<rparr>) = parked0 s"
  "parked0 (s\<lparr>ipi_sent := ip\<rparr>) = parked0 s"
  "parked0 (s\<lparr>ready_queue := rq\<rparr>) = parked0 s"
  "parked0 (s\<lparr>idle_queue := iq\<rparr>) = parked0 s"
  "parked0 (s\<lparr>mutexes := ms\<rparr>) = parked0 s"
  "parked0 (s\<lparr>cvs := cs\<rparr>) = parked0 s"
  "parked0 (s\<lparr>current_thd := ct\<rparr>) = parked0 s"
  "parked0 (wakeup_one_cpu s) = parked0 s"
  "parked0 (unlock c s) = parked0 s"
  "parked0 (locked c s) = parked0 s"
  by (simp_all add: parked0_def exited_def wakeup_one_cpu_def unlock_def locked_def)

lemma parked0_threads_upd:
  "threads s t = Some ti \<Longrightarrow> uc ti' = uc ti \<Longrightarrow>
     parked0 (s\<lparr>threads := (threads s)(t \<mapsto> ti')\<rparr>) = parked0 s"
  by (auto simp add: parked0_def exited_def)

lemma exited_new:
  "threads s a = None \<Longrightarrow> uc ti = Entry f \<Longrightarrow>
     exited (s\<lparr>threads := (threads s)(a \<mapsto> ti)\<rparr>) t = exited s t"
  by (cases "t = a") (simp_all add: exited_def)

lemma parked0_new:
  "threads s a = None \<Longrightarrow> uc ti = Entry f \<Longrightarrow>
     parked0 (s\<lparr>threads := (threads s)(a \<mapsto> ti)\<rparr>) = parked0 s"
  by (simp add: parked0_def exited_new)

lemma drain_cv_parked0 [simp]: "parked0 (drain_cv v q s) = parked0 s"
  by (simp add: parked0_def exited_def)

lemma drain_join_uc:
  "map_option uc (threads (drain_join t js s) u) = map_option uc (threads s u)"
  by (simp add: drain_join_threads split: option.splits)

lemma drain_join_exited [simp]: "exited (drain_join t js s) u = exited s u"
  using drain_join_uc [of t js s u]
  by (cases "threads (drain_join t js s) u"; cases "threads s u") (auto simp add: exited_def)

lemma drain_join_parked0 [simp]: "parked0 (drain_join t js s) = parked0 s"
  by (simp add: parked0_def)

lemma run_next_no_exit:
  assumes "run_next site c s = Switched s'" and "site \<noteq> Site_exit"
  shows "last_free_thread s' = last_free_thread s \<and> (\<forall>t. exited s' t \<longrightarrow> exited s t)"
  using run_next_exited [OF assms(1)] run_next_frame(6) [OF assms(1)] assms(2)
  by (auto split: if_splits)

lemma mutex_impl_lock_no_exit:
  assumes "site \<noteq> Site_exit" and "result (mutex_impl_lock site m c s) = Some s'"
  shows "last_free_thread s' = last_free_thread s \<and> (\<forall>t. exited s' t \<longrightarrow> exited s t)"
proof -
  from assms(2) obtain mi where mi: "mutexes s m = Some mi"
    by (auto simp add: mutex_impl_lock_def split: option.splits)
  show ?thesis
  proof (cases "own_thd mi = None")
    case True
    with assms mi show ?thesis by (auto simp add: mutex_impl_lock_def exited_def)
  next
    case False
    with assms mi have rn: "run_next site c
        (s\<lparr>mutexes := (mutexes s)(m \<mapsto> mi\<lparr>thd_q := thd_q mi @ [current c s]\<rparr>)\<rparr>) = Switched s'"
      by (simp add: mutex_impl_lock_def run_next_result)
    from run_next_no_exit [OF rn assms(1)] show ?thesis by (simp add: exited_def)
  qed
qed

lemma mutex_impl_unlock_no_exit:
  assumes "result (mutex_impl_unlock m c s) = Some s'"
  shows "last_free_thread s' = last_free_thread s \<and> (\<forall>t. exited s' t \<longrightarrow> exited s t)"
  using assms
  by (auto simp add: mutex_impl_unlock_def Let_def exited_def split: option.splits if_splits)

lemma body_no_exit:
  assumes al: "allowed c e s" and r: "result (body_of c e s) = Some s'" and ne: "e \<noteq> Thread_exit"
  shows "last_free_thread s' = last_free_thread s \<and> (\<forall>t. exited s' t \<longrightarrow> exited s t)"
proof (cases e)
  case (Thread_ctor h fn a)
  with assms show ?thesis
    by (auto simp add: ctor_body_def impl_ctor_def then_do_def Let_def exited_def
        split: option.splits if_splits)
next
  case (Thread_dtor h)
  with assms show ?thesis
    by (auto simp add: dtor_body_def exited_def split: option.splits if_splits)
next
  case (Thread_move_ctor h other)
  with assms show ?thesis
    by (auto simp add: move_body_def Let_def exited_def split: option.splits if_splits)
next
  case (Thread_move_assign h other)
  with assms show ?thesis
    by (auto simp add: move_assign_body_def move_body_def Let_def exited_def
        split: option.splits if_splits)
next
  case (Thread_join h)
  from r Thread_join consider (null) "s' = s"
    | (push) t ti where "threads s t = Some ti"
        "run_next Site_join c (s\<lparr>threads := (threads s)(t \<mapsto> ti\<lparr>join_thd := join_thd ti @ [current c s]\<rparr>)\<rparr>) = Switched s'"
    by (auto simp add: join_body_def run_next_result split: option.splits)
  thus ?thesis
  proof cases
    case null
    thus ?thesis by simp
  next
    case push
    from run_next_no_exit [OF push(2)] push(1) show ?thesis
      by (auto simp add: exited_def split: if_splits)
  qed
next
  case Thread_yield
  show ?thesis
  proof (cases "ready_queue s = []")
    case True
    with r Thread_yield show ?thesis by (simp add: yield_body_def)
  next
    case False
    with r Thread_yield have "run_next Site_yield c (s\<lparr>ready_queue := ready_queue s @ [current c s]\<rparr>) = Switched s'"
      by (simp add: yield_body_def run_next_result)
    from run_next_no_exit [OF this] show ?thesis by (simp add: exited_def)
  qed
next
  case Timer
  show ?thesis
  proof (cases "ready_queue s = []")
    case True
    with r Timer show ?thesis by (simp add: yield_body_def)
  next
    case False
    with r Timer have "run_next Site_timer c (s\<lparr>ready_queue := ready_queue s @ [current c s]\<rparr>) = Switched s'"
      by (simp add: yield_body_def run_next_result)
    from run_next_no_exit [OF this] show ?thesis by (simp add: exited_def)
  qed
next
  case Idle_loop
  with r have "run_next Site_idle c (s\<lparr>idle_queue := idle_queue s @ [current c s]\<rparr>) = Switched s'"
    by (simp add: idle_body_def run_next_result)
  from run_next_no_exit [OF this] show ?thesis by (simp add: exited_def)
next
  case Cpu_init_run
  with r have "run_next Site_init c s = Switched s'" by (simp add: run_next_result)
  from run_next_no_exit [OF this] show ?thesis by simp
next
  case (Mutex_lock m)
  with assms show ?thesis
    using mutex_impl_lock_no_exit [of "Site_mutex_lock m" m c s s'] by auto
next
  case (Mutex_unlock m)
  with assms show ?thesis
    using mutex_impl_unlock_no_exit [of m c s s'] by auto
next
  case (Cv_wait v m)
  from r Cv_wait consider
      (ret) s1 where "mutex_impl_unlock m c s = Returned s1"
        "result (case cvs s1 v of None \<Rightarrow> Undefined Dangling_pointer
           | Some q \<Rightarrow> run_next (Site_cv_wait m) c (s1\<lparr>cvs := (cvs s1)(v \<mapsto> q @ [current c s1])\<rparr>)) = Some s'"
    | (thr) x where "mutex_impl_unlock m c s = Threw x s'"
    | (sw) "mutex_impl_unlock m c s = Switched s'"
    by (auto simp add: cv_impl_wait_def result_then_do)
  thus ?thesis
  proof cases
    case ret
    have 1: "last_free_thread s1 = last_free_thread s \<and> (\<forall>t. exited s1 t \<longrightarrow> exited s t)"
      using mutex_impl_unlock_no_exit [of m c s s1] ret(1) by auto
    from ret(2) obtain q where rn: "run_next (Site_cv_wait m) c
        (s1\<lparr>cvs := (cvs s1)(v \<mapsto> q @ [current c s1])\<rparr>) = Switched s'"
      by (auto simp add: run_next_result split: option.splits)
    have "last_free_thread s' = last_free_thread s1 \<and> (\<forall>t. exited s' t \<longrightarrow> exited s1 t)"
      using run_next_no_exit [OF rn] by (auto simp add: exited_def)
    with 1 show ?thesis by auto
  next
    case thr
    thus ?thesis using mutex_impl_unlock_no_exit [of m c s s'] by auto
  next
    case sw
    thus ?thesis using mutex_impl_unlock_no_exit [of m c s s'] by auto
  qed
next
  case (Cv_signal v)
  with assms show ?thesis
    by (auto simp add: cv_impl_signal_def exited_def split: option.splits if_splits)
next
  case (Cv_broadcast v)
  with assms show ?thesis
    by (auto simp add: cv_impl_broadcast_def exited_def split: option.splits)
next
  case Thread_exit
  with ne show ?thesis by simp
qed

lemma body_parked:
  assumes p0: "parked0 s" and al: "allowed c e s" and r: "result (body_of c e s) = Some s'"
  shows "if body_of c e s = Switched s' then parked1 s' else parked0 s'"
proof (cases "e = Thread_exit")
  case False
  from body_no_exit [OF al r False] p0 have "parked0 s'"
    by (auto simp add: parked0_def)
  thus ?thesis by (simp add: parked0_imp_parked1)
next
  case Thread_exit: True
  from r Thread_exit obtain t ti where t: "current c s = Some t" "threads s t = Some ti"
    by (auto simp add: exit_body_def split: option.splits)
  let ?s1 = "drain_join t (join_thd ti) s"
  from r t Thread_exit obtain s2 where rn: "run_next Site_exit c s2 = Switched s'"
    and f: "last_free_thread s2 = Some t" "current_thd s2 = current_thd ?s1"
      "threads s2 = threads ?s1"
    by (cases "parent ti")
       (auto simp add: exit_body_def Let_def run_next_result split: option.splits)
  have ex2: "\<not> exited s2 u" for u
    using p0 f(3) drain_join_exited [of t "join_thd ti" s u] by (simp add: exited_def parked0_def)
  have j2: "map_option join_thd (threads s2 t) = Some []"
    using t f(3) by (simp add: drain_join_threads)
  have lf: "last_free_thread s' = Some t" using run_next_frame(6) [OF rn] f(1) by simp
  have "exited s' u \<Longrightarrow> u = t" for u
    using run_next_exited [OF rn, of u] ex2 f(2) t(1) by (auto simp add: current_def split: if_splits)
  moreover have "map_option join_thd (threads s' t) = Some []"
    using run_next_frame(9) [OF rn] j2 by simp
  ultimately have "parked1 s'" using lf by (auto simp add: parked1_def)
  moreover have "exit_body c s = Switched s'"
    using r Thread_exit by (cases "exit_body c s") simp_all
  ultimately show ?thesis using Thread_exit by simp
qed

lemma reclaim_parked0:
  assumes "parked1 s" and "reclaim s = Returned s'"
  shows "parked0 s'"
proof -
  have rr: "result (reclaim s) = Some s'" using assms(2) by simp
  note f = reclaim_result [OF rr]
  have "\<not> exited s' t" for t
    using assms(1) f(9) by (auto simp add: parked1_def exited_def split: option.splits if_splits)
  thus ?thesis using f(7) by (simp add: parked0_def)
qed

lemma resume_parked:
  assumes p1: "parked1 s" and r: "result (resume c s) = Some s'"
  shows "parked0 s'"
proof -
  from r obtain t ti where t: "current c s = Some t" "threads s t = Some ti"
    by (auto simp add: resume_def split: option.splits)
  show ?thesis
  proof (cases "uc ti")
    case (Entry fn)
    with r t have "result (then_do (reclaim s) (\<lambda>s1. Returned (unlock c s1))) = Some s'"
      by (simp add: resume_def thread_start_entry_def)
    then obtain s1 where "reclaim s = Returned s1" "s' = unlock c s1"
      by (cases "reclaim s") (auto simp add: then_do_def)
    thus ?thesis using reclaim_parked0 [OF p1, of s1] by simp
  next
    case (Saved site)
    with r t have "result (then_do (reclaim s) (after_run_next site c)) = Some s'"
      by (simp add: resume_def)
    then obtain s1 where s1: "reclaim s = Returned s1"
      and r1: "result (after_run_next site c s1) = Some s'"
      by (cases "reclaim s") (auto simp add: then_do_def)
    have ok1: "parked0 s1" by (rule reclaim_parked0 [OF p1 s1])
    show ?thesis
    proof (cases site)
      case (Site_cv_wait m)
      with r1 obtain s2 where "result (mutex_impl_lock (Site_cv_relock m) m c s1) = Some s2"
        "s' = s2 \<or> s' = unlock c s2"
        by (auto simp add: after_run_next_def result_then_do)
      moreover have "parked0 s2"
        using mutex_impl_lock_no_exit [of "Site_cv_relock m" m c s1 s2] ok1 calculation(1)
        by (auto simp add: parked0_def)
      ultimately show ?thesis by auto
    qed (use r1 ok1 in \<open>auto simp add: after_run_next_def\<close>)
  qed
qed

section \<open>Threads waiting for a mutex\<close>

lemma waits_weaken: "waits (Some c) s \<Longrightarrow> waits None s"
  unfolding waits_def by blast

lemma waits_quiet:
  assumes w: "waits pc s" and q: "quiet s s'"
  shows "waits pc s'"
  unfolding waits_def
proof (intro allI impI)
  fix t ti' m mi'
  assume t: "threads s' t = Some ti'" and ls: "lock_site m (uc ti')"
    and m: "mutexes s' m = Some mi'" and run: "\<forall>c. current_thd s' c = Some t \<longrightarrow> pc = Some c"
  have "(\<exists>ti. threads s t = Some ti \<and> uc ti = uc ti') \<or> (\<exists>f. uc ti' = Entry f)"
    using q t unfolding quiet_def by blast
  moreover have "\<not> (\<exists>f. uc ti' = Entry f)" using ls by (auto simp add: lock_site_def)
  ultimately obtain ti where ti: "threads s t = Some ti" "uc ti = uc ti'" by blast
  have "\<exists>mi. mutexes s m = Some mi \<and> own_thd mi' = own_thd mi \<and> set (thd_q mi) \<subseteq> set (thd_q mi')"
    using q m unfolding quiet_def by blast
  then obtain mi where mi: "mutexes s m = Some mi" "own_thd mi' = own_thd mi"
    "set (thd_q mi) \<subseteq> set (thd_q mi')" by blast
  have "\<forall>c. current_thd s c = Some t \<longrightarrow> pc = Some c"
    using run q by (simp add: quiet_def)
  with w ti ls mi(1) have "Some t \<in> set (thd_q mi) \<or> own_thd mi = Some t"
    unfolding waits_def by metis
  thus "Some t \<in> set (thd_q mi') \<or> own_thd mi' = Some t"
    using mi by auto
qed

lemma quiet_refl [simp]: "quiet s s"
  by (auto simp add: quiet_def)

lemma quiet_fields:
  assumes "current_thd s' = current_thd s" and "mutexes s' = mutexes s"
    and "\<And>t ti'. threads s' t = Some ti' \<Longrightarrow>
          (\<exists>ti. threads s t = Some ti \<and> uc ti = uc ti') \<or> (\<exists>f. uc ti' = Entry f)"
  shows "quiet s s'"
  using assms by (auto simp add: quiet_def)

lemma run_next_waits:
  assumes w: "waits None s"
    and park: "\<And>m mi. lock_site m (Saved site) \<Longrightarrow> mutexes s m = Some mi
                 \<Longrightarrow> current c s \<in> set (thd_q mi)"
    and rn: "run_next site c s = Switched s'"
  shows "waits (Some c) s'"
  unfolding waits_def
proof (intro allI impI)
  fix t ti' m mi
  assume t: "threads s' t = Some ti'" and ls: "lock_site m (uc ti')"
    and m: "mutexes s' m = Some mi" and run: "\<forall>c'. current_thd s' c' = Some t \<longrightarrow> Some c = Some c'"
  from run_next_Switched [OF rn] obtain n where
    cur: "current_thd s' = (current_thd s)(c := Some n)"
    by (auto split: if_splits)
  note fr = run_next_frame [OF rn]
  have m0: "mutexes s m = Some mi" using m fr(2) by simp
  show "Some t \<in> set (thd_q mi) \<or> own_thd mi = Some t"
  proof (cases "current c s = Some t")
    case True
    with t fr(9) have "uc ti' = Saved site"
      by (auto simp add: saved_uc_def split: option.splits)
    with ls park [OF _ m0] True show ?thesis by simp
  next
    case False
    with t fr(9) have t0: "threads s t = Some ti'"
      by (auto simp add: saved_uc_def split: option.splits if_splits)
    have "\<forall>c'. current_thd s c' \<noteq> Some t"
    proof
      fix c' show "current_thd s c' \<noteq> Some t"
      proof (cases "c' = c")
        case True
        with False show ?thesis by (simp add: current_def)
      next
        case ne: False
        have "current_thd s' c' = current_thd s c'" using cur ne by simp
        moreover have "current_thd s' c' = Some t \<longrightarrow> Some c = Some c'" using run by blast
        ultimately show ?thesis using ne by auto
      qed
    qed
    with w t0 ls m0 show ?thesis unfolding waits_def by blast
  qed
qed

lemma mutex_impl_unlock_waits:
  assumes w: "waits None s" and r: "result (mutex_impl_unlock m c s) = Some s'"
  shows "waits None s'"
proof -
  from r obtain mi where mi: "mutexes s m = Some mi"
    by (auto simp add: mutex_impl_unlock_def split: option.splits)
  show ?thesis
  proof (cases "own_thd mi = current c s")
    case False
    with r mi w show ?thesis by (simp add: mutex_impl_unlock_def)
  next
    case True
    from r mi True have s': "current_thd s' = current_thd s" "threads s' = threads s"
      "mutexes s' = (mutexes s)(m \<mapsto> (if thd_q mi = [] then mi\<lparr>own_thd := None\<rparr>
           else mi\<lparr>own_thd := hd (thd_q mi), thd_q := tl (thd_q mi)\<rparr>))"
      by (auto simp add: mutex_impl_unlock_def Let_def split: if_splits)
    show ?thesis
      unfolding waits_def
    proof (intro allI impI)
      fix t ti m' mi'
      assume t: "threads s' t = Some ti" and ls: "lock_site m' (uc ti)"
        and m': "mutexes s' m' = Some mi'" and run: "\<forall>c. current_thd s' c = Some t \<longrightarrow> None = Some c"
      have nr: "\<forall>c. current_thd s c \<noteq> Some t" using run s'(1) by auto
      show "Some t \<in> set (thd_q mi') \<or> own_thd mi' = Some t"
      proof (cases "m' = m")
        case False
        with m' s'(3) have "mutexes s m' = Some mi'" by simp
        with w t ls nr s'(2) show ?thesis unfolding waits_def by auto
      next
        case eq: True
        from w t ls nr s'(2) mi eq have "Some t \<in> set (thd_q mi) \<or> own_thd mi = Some t"
          unfolding waits_def by auto
        moreover have "own_thd mi \<noteq> Some t" using True nr by (auto simp add: current_def)
        ultimately have inq: "Some t \<in> set (thd_q mi)" by simp
        then obtain w ws where q: "thd_q mi = w # ws" by (cases "thd_q mi") auto
        with m' s'(3) eq have "mi' = mi\<lparr>own_thd := w, thd_q := ws\<rparr>" by simp
        with inq q show ?thesis by auto
      qed
    qed
  qed
qed

lemma mutex_impl_lock_waits:
  assumes w: "waits None s" and ok: "mutexes_ok s"
    and site: "lock_site m (Saved site)" "\<And>m'. lock_site m' (Saved site) \<Longrightarrow> m' = m"
    and r: "result (mutex_impl_lock site m c s) = Some s'"
  shows "if mutex_impl_lock site m c s = Switched s' then waits (Some c) s' else waits None s'"
proof -
  from r obtain mi where mi: "mutexes s m = Some mi"
    by (auto simp add: mutex_impl_lock_def split: option.splits)
  show ?thesis
  proof (cases "own_thd mi = None")
    case True
    with r mi have s': "s' = s\<lparr>mutexes := (mutexes s)(m \<mapsto> mi\<lparr>own_thd := current c s\<rparr>)\<rparr>"
      "mutex_impl_lock site m c s = Returned s'"
      by (simp_all add: mutex_impl_lock_def)
    have empty: "thd_q mi = []" using ok mi True by (simp add: mutexes_ok_def mutex_ok_def)
    have "waits None s'"
      unfolding waits_def
    proof (intro allI impI)
      fix t ti m' mi'
      assume t: "threads s' t = Some ti" and ls: "lock_site m' (uc ti)"
        and m': "mutexes s' m' = Some mi'" and run: "\<forall>c. current_thd s' c = Some t \<longrightarrow> None = Some c"
      have nr: "\<forall>c. current_thd s c \<noteq> Some t" using run s'(1) by auto
      show "Some t \<in> set (thd_q mi') \<or> own_thd mi' = Some t"
      proof (cases "m' = m")
        case False
        with m' s'(1) have "mutexes s m' = Some mi'" by simp
        with w t ls nr s'(1) show ?thesis unfolding waits_def by auto
      next
        case eq: True
        from w t ls nr s'(1) mi eq have "Some t \<in> set (thd_q mi) \<or> own_thd mi = Some t"
          unfolding waits_def by auto
        with empty True show ?thesis by simp
      qed
    qed
    thus ?thesis using s'(2) by simp
  next
    case False
    let ?s1 = "s\<lparr>mutexes := (mutexes s)(m \<mapsto> mi\<lparr>thd_q := thd_q mi @ [current c s]\<rparr>)\<rparr>"
    from r mi False have rn: "run_next site c ?s1 = Switched s'"
      and eq: "mutex_impl_lock site m c s = Switched s'"
      by (simp_all add: mutex_impl_lock_def run_next_result)
    have q: "quiet s ?s1" using mi by (auto simp add: quiet_def)
    have w1: "waits None ?s1" by (rule waits_quiet [OF w q])
    have "waits (Some c) s'"
    proof (rule run_next_waits [OF w1 _ rn])
      fix m' mi' assume "lock_site m' (Saved site)" "mutexes ?s1 m' = Some mi'"
      thus "current c ?s1 \<in> set (thd_q mi')"
        using site(2) [of m'] by (auto simp add: current_def)
    qed
    thus ?thesis using eq by simp
  qed
qed

lemma quiet_trans:
  assumes a: "quiet s s1" and b: "quiet s1 s2"
  shows "quiet s s2"
  unfolding quiet_def
proof (intro conjI allI impI)
  show "current_thd s2 = current_thd s" using a b by (simp add: quiet_def)
next
  fix t ti2 assume t2: "threads s2 t = Some ti2"
  have "(\<exists>ti. threads s1 t = Some ti \<and> uc ti = uc ti2) \<or> (\<exists>f. uc ti2 = Entry f)"
    using b t2 unfolding quiet_def by blast
  thus "(\<exists>ti. threads s t = Some ti \<and> uc ti = uc ti2) \<or> (\<exists>f. uc ti2 = Entry f)"
  proof
    assume "\<exists>ti. threads s1 t = Some ti \<and> uc ti = uc ti2"
    then obtain ti1 where t1: "threads s1 t = Some ti1" "uc ti1 = uc ti2" by blast
    have "(\<exists>ti. threads s t = Some ti \<and> uc ti = uc ti1) \<or> (\<exists>f. uc ti1 = Entry f)"
      using a t1(1) unfolding quiet_def by blast
    thus ?thesis using t1(2) by auto
  qed simp
next
  fix m mi2 assume m2: "mutexes s2 m = Some mi2"
  have "\<exists>mi. mutexes s1 m = Some mi \<and> own_thd mi2 = own_thd mi \<and> set (thd_q mi) \<subseteq> set (thd_q mi2)"
    using b m2 unfolding quiet_def by blast
  then obtain mi1 where m1: "mutexes s1 m = Some mi1" "own_thd mi2 = own_thd mi1"
    "set (thd_q mi1) \<subseteq> set (thd_q mi2)" by blast
  have "\<exists>mi. mutexes s m = Some mi \<and> own_thd mi1 = own_thd mi \<and> set (thd_q mi) \<subseteq> set (thd_q mi1)"
    using a m1(1) unfolding quiet_def by blast
  thus "\<exists>mi. mutexes s m = Some mi \<and> own_thd mi2 = own_thd mi \<and> set (thd_q mi) \<subseteq> set (thd_q mi2)"
    using m1(2,3) by auto
qed

lemma drain_join_quiet: "quiet s (drain_join t js s)"
proof (rule quiet_fields)
  fix u ti' assume u: "threads (drain_join t js s) u = Some ti'"
  have "map_option uc (threads s u) = Some (uc ti')"
    using drain_join_uc [of t js s u] u by simp
  thus "(\<exists>ti. threads s u = Some ti \<and> uc ti = uc ti') \<or> (\<exists>f. uc ti' = Entry f)" by auto
qed simp_all

lemma not_lock_site [simp]:
  "\<not> lock_site m (Saved Site_init)" "\<not> lock_site m (Saved Site_idle)"
  "\<not> lock_site m (Saved Site_timer)" "\<not> lock_site m (Saved Site_exit)"
  "\<not> lock_site m (Saved Site_join)" "\<not> lock_site m (Saved Site_yield)"
  "\<not> lock_site m (Saved (Site_cv_wait m'))" "\<not> lock_site m (Entry f)"
  by (simp_all add: lock_site_def)

lemma park_waits:
  assumes w: "waits None s" and q: "quiet s s1"
    and site: "\<And>m. \<not> lock_site m (Saved site)"
    and rn: "run_next site c s1 = Switched s'"
  shows "waits (Some c) s'"
  by (rule run_next_waits [OF waits_quiet [OF w q] _ rn]) (simp add: site)

lemma ctor_body_quiet:
  assumes "threads s a = None" and "result (ctor_body h fn a s) = Some s'"
  shows "quiet s s'"
  using assms
  by (auto simp add: ctor_body_def impl_ctor_def then_do_def Let_def quiet_def
      split: option.splits if_splits)

lemma dtor_body_quiet: "result (dtor_body h s) = Some s' \<Longrightarrow> quiet s s'"
  by (auto simp add: dtor_body_def quiet_def split: option.splits if_splits)

lemma move_body_quiet: "result (move_body h other s) = Some s' \<Longrightarrow> quiet s s'"
  by (auto simp add: move_body_def Let_def quiet_def split: option.splits if_splits)

lemma move_assign_body_quiet: "result (move_assign_body h other s) = Some s' \<Longrightarrow> quiet s s'"
  using move_body_quiet [of h other s s']
  by (auto simp add: move_assign_body_def split: option.splits)

lemma cv_impl_signal_quiet: "result (cv_impl_signal v s) = Some s' \<Longrightarrow> quiet s s'"
  by (auto simp add: cv_impl_signal_def quiet_def split: option.splits if_splits)

lemma cv_impl_broadcast_quiet: "result (cv_impl_broadcast v s) = Some s' \<Longrightarrow> quiet s s'"
  by (auto simp add: cv_impl_broadcast_def quiet_def split: option.splits if_splits)

lemma body_waits:
  assumes w: "waits None s" and ok: "mutexes_ok s" and al: "allowed c e s"
    and r: "result (body_of c e s) = Some s'"
  shows "if body_of c e s = Switched s' then waits (Some c) s' else waits None s'"
proof (cases e)
  case (Thread_ctor h fn a)
  with al r have "quiet s s'" using ctor_body_quiet [of s a h fn s'] by simp
  with w have "waits None s'" by (rule waits_quiet)
  moreover have "body_of c e s \<noteq> Switched s'"
    using Thread_ctor by (auto simp add: ctor_body_def impl_ctor_def then_do_def Let_def split: option.splits)
  ultimately show ?thesis by simp
next
  case (Thread_dtor h)
  with r have "quiet s s'" using dtor_body_quiet [of h s s'] by simp
  with w have "waits None s'" by (rule waits_quiet)
  moreover have "body_of c e s \<noteq> Switched s'"
    using Thread_dtor by (auto simp add: dtor_body_def split: option.splits)
  ultimately show ?thesis by simp
next
  case (Thread_move_ctor h other)
  with r have "quiet s s'" using move_body_quiet [of h other s s'] by simp
  with w have "waits None s'" by (rule waits_quiet)
  moreover have "body_of c e s \<noteq> Switched s'"
    using Thread_move_ctor by (auto simp add: move_body_def Let_def split: option.splits)
  ultimately show ?thesis by simp
next
  case (Thread_move_assign h other)
  with r have "quiet s s'" using move_assign_body_quiet [of h other s s'] by simp
  with w have "waits None s'" by (rule waits_quiet)
  moreover have "body_of c e s \<noteq> Switched s'"
    using Thread_move_assign
    by (auto simp add: move_assign_body_def move_body_def Let_def split: option.splits)
  ultimately show ?thesis by simp
next
  case (Cv_signal v)
  with r have "quiet s s'" using cv_impl_signal_quiet [of v s s'] by simp
  with w have "waits None s'" by (rule waits_quiet)
  moreover have "body_of c e s \<noteq> Switched s'"
    using Cv_signal by (auto simp add: cv_impl_signal_def split: option.splits)
  ultimately show ?thesis by simp
next
  case (Cv_broadcast v)
  with r have "quiet s s'" using cv_impl_broadcast_quiet [of v s s'] by simp
  with w have "waits None s'" by (rule waits_quiet)
  moreover have "body_of c e s \<noteq> Switched s'"
    using Cv_broadcast by (auto simp add: cv_impl_broadcast_def split: option.splits)
  ultimately show ?thesis by simp
next
  case (Thread_join h)
  from r Thread_join consider (null) "s' = s" "join_body h c s = Returned s"
    | (push) t ti where "threads s t = Some ti"
        "run_next Site_join c (s\<lparr>threads := (threads s)(t \<mapsto> ti\<lparr>join_thd := join_thd ti @ [current c s]\<rparr>)\<rparr>) = Switched s'"
    by (auto simp add: join_body_def run_next_result split: option.splits)
  thus ?thesis
  proof cases
    case null
    with w Thread_join show ?thesis by simp
  next
    case push
    have "waits (Some c) s'"
      by (rule park_waits [OF w _ _ push(2)]) (use push(1) in \<open>auto simp add: quiet_def\<close>)
    moreover have "waits None s'" using calculation by (rule waits_weaken)
    ultimately show ?thesis by simp
  qed
next
  case Thread_yield
  show ?thesis
  proof (cases "ready_queue s = []")
    case True
    with r Thread_yield w show ?thesis by (simp add: yield_body_def)
  next
    case False
    with r Thread_yield have rn: "run_next Site_yield c (s\<lparr>ready_queue := ready_queue s @ [current c s]\<rparr>) = Switched s'"
      by (simp add: yield_body_def run_next_result)
    have "waits (Some c) s'"
      by (rule park_waits [OF w _ _ rn]) (auto simp add: quiet_def)
    moreover have "waits None s'" using calculation by (rule waits_weaken)
    ultimately show ?thesis by simp
  qed
next
  case Timer
  show ?thesis
  proof (cases "ready_queue s = []")
    case True
    with r Timer w show ?thesis by (simp add: yield_body_def)
  next
    case False
    with r Timer have rn: "run_next Site_timer c (s\<lparr>ready_queue := ready_queue s @ [current c s]\<rparr>) = Switched s'"
      by (simp add: yield_body_def run_next_result)
    have "waits (Some c) s'"
      by (rule park_waits [OF w _ _ rn]) (auto simp add: quiet_def)
    moreover have "waits None s'" using calculation by (rule waits_weaken)
    ultimately show ?thesis by simp
  qed
next
  case Idle_loop
  with r have rn: "run_next Site_idle c (s\<lparr>idle_queue := idle_queue s @ [current c s]\<rparr>) = Switched s'"
    by (simp add: idle_body_def run_next_result)
  have "waits (Some c) s'"
    by (rule park_waits [OF w _ _ rn]) (auto simp add: quiet_def)
  moreover have "waits None s'" using calculation by (rule waits_weaken)
  ultimately show ?thesis by simp
next
  case Cpu_init_run
  with r have rn: "run_next Site_init c s = Switched s'" by (simp add: run_next_result)
  have "waits (Some c) s'"
    by (rule park_waits [OF w _ _ rn]) auto
  moreover have "waits None s'" using calculation by (rule waits_weaken)
  ultimately show ?thesis by simp
next
  case Thread_exit
  from r Thread_exit obtain t ti where t: "current c s = Some t" "threads s t = Some ti"
    by (auto simp add: exit_body_def split: option.splits)
  let ?s1 = "drain_join t (join_thd ti) s"
  from r t Thread_exit obtain s2 where rn: "run_next Site_exit c s2 = Switched s'"
    and f: "current_thd s2 = current_thd ?s1" "threads s2 = threads ?s1" "mutexes s2 = mutexes ?s1"
    by (cases "parent ti")
       (auto simp add: exit_body_def Let_def run_next_result split: option.splits)
  have "quiet ?s1 s2" using f by (auto simp add: quiet_def)
  with drain_join_quiet [of s t "join_thd ti"] have q: "quiet s s2" by (rule quiet_trans)
  have "waits (Some c) s'"
    by (rule park_waits [OF w q _ rn]) simp
  moreover have "waits None s'" using calculation by (rule waits_weaken)
  ultimately show ?thesis by simp
next
  case (Mutex_lock m)
  with r show ?thesis
    using mutex_impl_lock_waits [OF w ok, of m "Site_mutex_lock m" c s']
    by (auto simp add: lock_site_def)
next
  case (Mutex_unlock m)
  with r have "waits None s'" using mutex_impl_unlock_waits [OF w, of m c s'] by simp
  moreover have "body_of c e s \<noteq> Switched s'"
    using Mutex_unlock by (auto simp add: mutex_impl_unlock_def Let_def split: option.splits)
  ultimately show ?thesis by simp
next
  case (Cv_wait v m)
  from r Cv_wait consider
      (ret) s1 where "mutex_impl_unlock m c s = Returned s1"
        "result (case cvs s1 v of None \<Rightarrow> Undefined Dangling_pointer
           | Some q \<Rightarrow> run_next (Site_cv_wait m) c (s1\<lparr>cvs := (cvs s1)(v \<mapsto> q @ [current c s1])\<rparr>)) = Some s'"
    | (thr) x where "mutex_impl_unlock m c s = Threw x s'"
    | (sw) "mutex_impl_unlock m c s = Switched s'"
    by (auto simp add: cv_impl_wait_def result_then_do)
  thus ?thesis
  proof cases
    case ret
    have w1: "waits None s1" using mutex_impl_unlock_waits [OF w, of m c s1] ret(1) by simp
    from ret(2) obtain q where rn: "run_next (Site_cv_wait m) c
        (s1\<lparr>cvs := (cvs s1)(v \<mapsto> q @ [current c s1])\<rparr>) = Switched s'"
      by (auto simp add: run_next_result split: option.splits)
    have "waits (Some c) s'"
      by (rule park_waits [OF w1 _ _ rn]) (auto simp add: quiet_def)
    moreover have "waits None s'" using calculation by (rule waits_weaken)
    ultimately show ?thesis by simp
  next
    case thr
    hence "waits None s'" using mutex_impl_unlock_waits [OF w, of m c s'] by simp
    moreover have "body_of c e s \<noteq> Switched s'"
      using thr Cv_wait by (simp add: cv_impl_wait_def then_do_def)
    ultimately show ?thesis by simp
  next
    case sw
    thus ?thesis by (auto simp add: mutex_impl_unlock_def Let_def split: option.splits if_splits)
  qed
qed

lemma resume_waits:
  assumes w: "waits (Some c) s" and ok: "mutexes_ok s" and r: "result (resume c s) = Some s'"
  shows "if resume c s = Switched s' then waits (Some c) s' else waits None s'"
proof -
  from r obtain t ti where t: "current c s = Some t" "threads s t = Some ti"
    by (auto simp add: resume_def split: option.splits)
  have rq: "quiet s s1" if "reclaim s = Returned s1" for s1
  proof -
    have rr: "result (reclaim s) = Some s1" using that by simp
    note f = reclaim_result [OF rr]
    show ?thesis
      using f(1,3,9) by (auto simp add: quiet_def split: option.splits if_splits)
  qed
  show ?thesis
  proof (cases "uc ti")
    case (Entry fn)
    with r t have e: "resume c s = then_do (reclaim s) (\<lambda>s1. Returned (unlock c s1))"
      by (simp add: resume_def thread_start_entry_def)
    with r obtain s1 where s1: "reclaim s = Returned s1" "s' = unlock c s1"
      by (cases "reclaim s") (auto simp add: then_do_def)
    have "quiet s1 s'" using s1(2) by (auto simp add: quiet_def unlock_def)
    with rq [OF s1(1)] have "quiet s s'" by (rule quiet_trans)
    with w have "waits (Some c) s'" by (rule waits_quiet)
    hence "waits None s'" by (rule waits_weaken)
    moreover have "resume c s \<noteq> Switched s'" using e s1 by (simp add: then_do_def)
    ultimately show ?thesis by simp
  next
    case (Saved site)
    with r t have e: "resume c s = then_do (reclaim s) (after_run_next site c)"
      by (simp add: resume_def)
    with r obtain s1 where s1: "reclaim s = Returned s1"
      and r1: "result (after_run_next site c s1) = Some s'"
      by (cases "reclaim s") (auto simp add: then_do_def)
    have e1: "resume c s = after_run_next site c s1" using e s1 by (simp add: then_do_def)
    have w1: "waits (Some c) s1" by (rule waits_quiet [OF w rq [OF s1]])
    have rr: "result (reclaim s) = Some s1" using s1 by simp
    have ok1: "mutexes_ok s1" using ok reclaim_result(1) [OF rr] mutexes_ok_eq [of s1 s] by simp
    show ?thesis
    proof (cases site)
      case (Site_cv_wait m)
      with r1 obtain s2 where s2: "result (mutex_impl_lock (Site_cv_relock m) m c s1) = Some s2"
        "(mutex_impl_lock (Site_cv_relock m) m c s1 = Returned s2 \<and> s' = unlock c s2)
         \<or> (mutex_impl_lock (Site_cv_relock m) m c s1 = Switched s2 \<and> s' = s2)"
        by (auto simp add: after_run_next_def result_then_do mutex_impl_lock_def run_next_result
            split: option.splits if_splits)
      note l = mutex_impl_lock_waits [OF waits_weaken [OF w1] ok1, of m "Site_cv_relock m" c s2]
      from s2(2) show ?thesis
      proof
        assume a: "mutex_impl_lock (Site_cv_relock m) m c s1 = Returned s2 \<and> s' = unlock c s2"
        hence "waits None s2" using l s2(1) by (auto simp add: lock_site_def)
        moreover have "quiet s2 s'" using a by (auto simp add: quiet_def unlock_def)
        ultimately have "waits None s'" by (rule waits_quiet)
        moreover have "resume c s \<noteq> Switched s'"
          using e1 a Site_cv_wait by (simp add: after_run_next_def then_do_def)
        ultimately show ?thesis by simp
      next
        assume a: "mutex_impl_lock (Site_cv_relock m) m c s1 = Switched s2 \<and> s' = s2"
        hence "waits (Some c) s'" using l s2(1) by (auto simp add: lock_site_def)
        moreover have "waits None s'" using calculation by (rule waits_weaken)
        ultimately show ?thesis by simp
      qed
    next
      case Site_exit
      with r1 show ?thesis by (simp add: after_run_next_def)
    qed (use r1 e1 waits_quiet [OF waits_weaken [OF w1], of s'] in
          \<open>auto simp add: after_run_next_def quiet_def unlock_def\<close>)
  qed
qed

section \<open>The invariant of executions\<close>

lemma parked0_free_ok: "parked0 s \<Longrightarrow> free_ok s"
  by (simp add: parked0_def free_ok_def)

lemma body_free_ok:
  assumes p0: "parked0 s" and al: "allowed c e s" and r: "result (body_of c e s) = Some s'"
  shows "free_ok s'"
proof (cases "e = Thread_exit")
  case False
  from body_no_exit [OF al r False] p0 have "parked0 s'"
    by (auto simp add: parked0_def)
  thus ?thesis by (rule parked0_free_ok)
next
  case Thread_exit: True
  from r Thread_exit obtain t ti where t: "current c s = Some t" "threads s t = Some ti"
    by (auto simp add: exit_body_def split: option.splits)
  let ?s1 = "drain_join t (join_thd ti) s"
  from r t Thread_exit obtain s2 where rn: "run_next Site_exit c s2 = Switched s'"
    and f: "last_free_thread s2 = Some t" "threads s2 = threads ?s1"
      "\<forall>h. parent ti = Some h \<longrightarrow> handles s2 h \<noteq> None"
    by (cases "parent ti")
       (auto simp add: exit_body_def Let_def run_next_result split: option.splits)
  have lf: "last_free_thread s' = Some t" using run_next_frame(6) [OF rn] f(1) by simp
  have "map_option parent (threads s2 t) = Some (parent ti)"
    using t f(2) by (simp add: drain_join_threads)
  hence "map_option parent (threads s' t) = Some (parent ti)"
    using run_next_frame(9) [OF rn] by simp
  moreover have "handles s' = handles s2" by (rule run_next_frame(1) [OF rn])
  ultimately show ?thesis using lf f(3) by (auto simp add: free_ok_def)
qed

lemma reclaim_defined:
  assumes "state_ok s" and "free_ok s"
  shows "\<exists>s1. reclaim s = Returned s1"
proof (cases "last_free_thread s")
  case None
  thus ?thesis by (simp add: reclaim_def then_do_def)
next
  case (Some t)
  have "0 < cnt (refs s) P_free t" using Some by (simp add: cnt_def)
  with assms(1) have "threads s t \<noteq> None"
    unfolding state_ok_def refs_ok_def by (auto dest: all_liveD)
  then obtain ti where ti: "threads s t = Some ti" by auto
  show ?thesis
  proof (cases "parent ti")
    case None
    thus ?thesis using Some ti by (simp add: reclaim_def impl_dtor_def then_do_def)
  next
    case (Some h)
    with assms(2) \<open>last_free_thread s = Some t\<close> ti obtain p where "handles s h = Some p"
      by (auto simp add: free_ok_def)
    thus ?thesis using Some \<open>last_free_thread s = Some t\<close> ti
      by (simp add: reclaim_def impl_dtor_def then_do_def)
  qed
qed

lemma waits_frame [simp]:
  "waits pc (unlock c s) = waits pc s" "waits pc (locked c s) = waits pc s"
  by (simp_all add: waits_def unlock_def locked_def)

lemma mutexes_ok_locked [simp]: "mutexes_ok (locked c s) = mutexes_ok s"
  by (simp add: locked_def)

lemma allowed_locked [simp]: "allowed c e (locked c' s) = allowed c e s"
  by (cases e) (simp_all add: locked_def current_def)

lemma body_config_ok:
  assumes "config_ok (Running s)" and "allowed c e s" and "result (body_of c e (locked c s)) = Some s2"
  shows "if body_of c e (locked c s) = Switched s2 then config_ok (Pending c s2)
         else config_ok (Running (unlock c s2))"
proof -
  let ?s1 = "locked c s"
  have a: "state_ok ?s1" "mutexes_ok ?s1" "parked0 ?s1" "waits None ?s1" "allowed c e ?s1"
    using assms(1,2) by simp_all
  have "state_ok s2" by (rule body_state_ok [OF a(1) a(5) assms(3)])
  moreover have "mutexes_ok s2" by (rule body_mutexes_ok [OF a(2) a(5) assms(3)])
  moreover note body_parked [OF a(3) a(5) assms(3)] body_waits [OF a(4) a(2) a(5) assms(3)]
    body_free_ok [OF a(3) a(5) assms(3)]
  ultimately show ?thesis by (simp split: if_splits)
qed

lemma resume_config_ok:
  assumes "config_ok (Pending c s)" and "result (resume c s) = Some s'"
  shows "if resume c s = Switched s' then config_ok (Pending c s') else config_ok (Running s')"
proof -
  have a: "state_ok s" "mutexes_ok s" "parked1 s" "waits (Some c) s" using assms(1) by simp_all
  have "state_ok s'" by (rule resume_state_ok [OF a(1) assms(2)])
  moreover have "mutexes_ok s'" by (rule resume_mutexes_ok [OF a(2) assms(2)])
  moreover have "parked0 s'" by (rule resume_parked [OF a(3) assms(2)])
  moreover note resume_waits [OF a(4) a(2) assms(2)]
  ultimately show ?thesis by (simp add: parked0_imp_parked1 parked0_free_ok split: if_splits)
qed

lemma trans_config_ok:
  assumes "trans cf cf'" and "config_ok cf"
  shows "config_ok cf'"
  using assms
proof (cases rule: trans.cases)
  case (call_returned c e s s')
  from call_cases [OF call_returned(4)] obtain s2 where
    "body_of c e (locked c s) = Returned s2" "s' = unlock c s2"
    by (auto split: outcome.splits)
  thus ?thesis using body_config_ok [of s c e s2] assms(2) call_returned by simp
next
  case (call_threw c e s x s')
  from call_cases [OF call_threw(4)] obtain s2 where
    "body_of c e (locked c s) = Threw x s2" "s' = unlock c s2"
    by (auto split: outcome.splits)
  thus ?thesis using body_config_ok [of s c e s2] assms(2) call_threw by simp
next
  case (call_switched c e s s')
  from call_cases [OF call_switched(4)] have "body_of c e (locked c s) = Switched s'"
    by (auto split: outcome.splits)
  thus ?thesis using body_config_ok [of s c e s'] assms(2) call_switched by simp
next
  case (resume_returned c s s')
  thus ?thesis using resume_config_ok [of c s s'] assms(2) by simp
next
  case (resume_switched c s s')
  thus ?thesis using resume_config_ok [of c s s'] assms(2) by simp
qed

lemma reach_config_ok:
  assumes "trans\<^sup>*\<^sup>* cf cf'" and "config_ok cf"
  shows "config_ok cf'"
  using assms by (induction rule: rtranclp_induct) (auto intro: trans_config_ok)

lemma single_refI:
  assumes "\<And>p t. cnt R p t \<le> 1" and "\<And>p t. 0 < cnt R p t \<Longrightarrow> p = loc t"
  shows "single_ref R"
  unfolding single_ref_def
proof
  fix t
  have "\<forall>q. q \<noteq> loc t \<longrightarrow> cnt R q t = 0" using assms(2) [of _ t] by auto
  with assms(1) [of "loc t" t] show "\<exists>p. cnt R p t \<le> 1 \<and> (\<forall>q. q \<noteq> p \<longrightarrow> cnt R q t = 0)"
    by blast
qed

lemma config_ok_boot: "config_ok (Running boot_state)"
proof -
  have 0: "cnt (refs boot_state) p t = 0" for p t
    by (cases p) (simp_all add: boot_state_def cnt_def)
  have "single_ref (refs boot_state)"
    by (rule single_refI [where loc = "\<lambda>t. P_ready"]) (simp_all add: 0)
  moreover have "all_live (refs boot_state) (threads boot_state)"
    by (simp add: all_live_def 0)
  ultimately show ?thesis
    by (simp add: state_ok_def refs_ok_def mutexes_ok_def parked0_def exited_def waits_def
        boot_state_def)
qed

lemma config_ok_demo: "config_ok (Running demo_state)"
proof -
  let ?loc = "\<lambda>t::tid. if t = 1 then P_cpu 0 else if t = 2 then P_mutex 5
                else if t = 3 then P_idle else P_cpu 1"
  have 1: "cnt (refs demo_state) p t \<le> 1" for p t
    by (cases p) (simp_all add: demo_state_def boot_state_def cnt_def)
  have 2: "p = ?loc t" if "0 < cnt (refs demo_state) p t" for p t
    using that by (cases p) (simp_all add: demo_state_def boot_state_def cnt_def split: if_splits)
  have 3: "threads demo_state t \<noteq> None" if "0 < cnt (refs demo_state) p t" for p t
    using that by (cases p) (simp_all add: demo_state_def boot_state_def cnt_def split: if_splits)
  have "single_ref (refs demo_state)" by (rule single_refI [where loc = ?loc]) (rule 1, rule 2)
  moreover have "all_live (refs demo_state) (threads demo_state)"
    unfolding all_live_def using 3 by blast
  moreover have "mutexes_ok demo_state"
    by (simp add: mutexes_ok_def mutex_ok_def demo_state_def boot_state_def)
  moreover have "parked0 demo_state"
    by (simp add: parked0_def exited_def demo_state_def boot_state_def)
  moreover have "waits None demo_state"
    by (auto simp add: waits_def lock_site_def demo_state_def boot_state_def split: if_splits)
  ultimately show ?thesis by (simp add: state_ok_def refs_ok_def)
qed

section \<open>Threads waiting in join\<close>

lemma waiting_on_frame [simp]:
  "waiting_on (unlock c s) t w = waiting_on s t w"
  "waiting_on (locked c s) t w = waiting_on s t w"
  by (simp_all add: waiting_on_def unlock_def locked_def)

lemma waiting_on_mono:
  assumes "waiting_on s t w"
    and "\<And>ti. threads s t = Some ti \<Longrightarrow>
           \<exists>ti'. threads s' t = Some ti' \<and> set (join_thd ti) \<subseteq> set (join_thd ti')"
  shows "waiting_on s' t w"
  using assms unfolding waiting_on_def by blast

lemma run_next_waiting:
  assumes "run_next site c s = Switched s'"
  shows "waiting_on s' t w = waiting_on s t w"
proof -
  have "map_option join_thd (threads s' t) = map_option join_thd (threads s t)"
    using run_next_frame(9) [OF assms] by simp
  thus ?thesis
    by (cases "threads s' t"; cases "threads s t") (auto simp add: waiting_on_def)
qed

lemma mutex_impl_lock_waiting:
  assumes "result (mutex_impl_lock site m c s) = Some s'"
  shows "waiting_on s' t w = waiting_on s t w"
proof -
  from assms obtain mi where mi: "mutexes s m = Some mi"
    by (auto simp add: mutex_impl_lock_def split: option.splits)
  show ?thesis
  proof (cases "own_thd mi = None")
    case True
    with assms mi show ?thesis by (auto simp add: mutex_impl_lock_def waiting_on_def)
  next
    case False
    with assms mi have rn: "run_next site c
        (s\<lparr>mutexes := (mutexes s)(m \<mapsto> mi\<lparr>thd_q := thd_q mi @ [current c s]\<rparr>)\<rparr>) = Switched s'"
      by (simp add: mutex_impl_lock_def run_next_result)
    from run_next_waiting [OF rn, of t w] show ?thesis by (simp add: waiting_on_def)
  qed
qed

lemma mutex_impl_unlock_waiting:
  assumes "result (mutex_impl_unlock m c s) = Some s'"
  shows "waiting_on s' t w = waiting_on s t w"
  using assms
  by (auto simp add: mutex_impl_unlock_def Let_def waiting_on_def split: option.splits if_splits)

lemma body_waiting:
  assumes al: "allowed c e s" and r: "result (body_of c e s) = Some s'"
    and w: "waiting_on s t w" and ne: "\<not> (e = Thread_exit \<and> current c s = Some t)"
  shows "waiting_on s' t w"
proof (cases e)
  case (Thread_ctor h fn a)
  with al r w show ?thesis
    by (auto simp add: ctor_body_def impl_ctor_def then_do_def Let_def waiting_on_def
        split: option.splits if_splits)
next
  case (Thread_dtor h)
  with r w show ?thesis
    by (auto simp add: dtor_body_def waiting_on_def split: option.splits if_splits)
next
  case (Thread_move_ctor h other)
  with r w show ?thesis
    by (auto simp add: move_body_def Let_def waiting_on_def split: option.splits if_splits)
next
  case (Thread_move_assign h other)
  with r w show ?thesis
    by (auto simp add: move_assign_body_def move_body_def Let_def waiting_on_def
        split: option.splits if_splits)
next
  case (Thread_join h)
  from r Thread_join consider (null) "s' = s"
    | (push) u ui where "threads s u = Some ui"
        "run_next Site_join c (s\<lparr>threads := (threads s)(u \<mapsto> ui\<lparr>join_thd := join_thd ui @ [current c s]\<rparr>)\<rparr>) = Switched s'"
    by (auto simp add: join_body_def run_next_result split: option.splits)
  thus ?thesis
  proof cases
    case null
    with w show ?thesis by simp
  next
    case push
    from run_next_waiting [OF push(2), of t w] w push(1) show ?thesis
      by (auto simp add: waiting_on_def split: if_splits)
  qed
next
  case Thread_yield
  show ?thesis
  proof (cases "ready_queue s = []")
    case True
    with r Thread_yield w show ?thesis by (simp add: yield_body_def)
  next
    case False
    with r Thread_yield have "run_next Site_yield c (s\<lparr>ready_queue := ready_queue s @ [current c s]\<rparr>) = Switched s'"
      by (simp add: yield_body_def run_next_result)
    from run_next_waiting [OF this, of t w] w show ?thesis by (simp add: waiting_on_def)
  qed
next
  case Timer
  show ?thesis
  proof (cases "ready_queue s = []")
    case True
    with r Timer w show ?thesis by (simp add: yield_body_def)
  next
    case False
    with r Timer have "run_next Site_timer c (s\<lparr>ready_queue := ready_queue s @ [current c s]\<rparr>) = Switched s'"
      by (simp add: yield_body_def run_next_result)
    from run_next_waiting [OF this, of t w] w show ?thesis by (simp add: waiting_on_def)
  qed
next
  case Idle_loop
  with r have "run_next Site_idle c (s\<lparr>idle_queue := idle_queue s @ [current c s]\<rparr>) = Switched s'"
    by (simp add: idle_body_def run_next_result)
  from run_next_waiting [OF this, of t w] w show ?thesis by (simp add: waiting_on_def)
next
  case Cpu_init_run
  with r have "run_next Site_init c s = Switched s'" by (simp add: run_next_result)
  from run_next_waiting [OF this, of t w] w show ?thesis by simp
next
  case (Mutex_lock m)
  with r w show ?thesis using mutex_impl_lock_waiting [of "Site_mutex_lock m" m c s s' t w] by simp
next
  case (Mutex_unlock m)
  with r w show ?thesis using mutex_impl_unlock_waiting [of m c s s' t w] by simp
next
  case (Cv_wait v m)
  from r Cv_wait consider
      (ret) s1 where "mutex_impl_unlock m c s = Returned s1"
        "result (case cvs s1 v of None \<Rightarrow> Undefined Dangling_pointer
           | Some q \<Rightarrow> run_next (Site_cv_wait m) c (s1\<lparr>cvs := (cvs s1)(v \<mapsto> q @ [current c s1])\<rparr>)) = Some s'"
    | (thr) x where "mutex_impl_unlock m c s = Threw x s'"
    | (sw) "mutex_impl_unlock m c s = Switched s'"
    by (auto simp add: cv_impl_wait_def result_then_do)
  thus ?thesis
  proof cases
    case ret
    have w1: "waiting_on s1 t w" using mutex_impl_unlock_waiting [of m c s s1 t w] ret(1) w by simp
    from ret(2) obtain q where rn: "run_next (Site_cv_wait m) c
        (s1\<lparr>cvs := (cvs s1)(v \<mapsto> q @ [current c s1])\<rparr>) = Switched s'"
      by (auto simp add: run_next_result split: option.splits)
    from run_next_waiting [OF rn, of t w] w1 show ?thesis by (simp add: waiting_on_def)
  next
    case thr
    thus ?thesis using mutex_impl_unlock_waiting [of m c s s' t w] w by simp
  next
    case sw
    thus ?thesis using mutex_impl_unlock_waiting [of m c s s' t w] w by simp
  qed
next
  case (Cv_signal v)
  with r w show ?thesis
    by (auto simp add: cv_impl_signal_def waiting_on_def split: option.splits if_splits)
next
  case (Cv_broadcast v)
  with r w show ?thesis
    by (auto simp add: cv_impl_broadcast_def waiting_on_def split: option.splits)
next
  case Thread_exit
  from r Thread_exit obtain t0 ti where t0: "current c s = Some t0" "threads s t0 = Some ti"
    by (auto simp add: exit_body_def split: option.splits)
  have tne: "t \<noteq> t0" using ne Thread_exit t0(1) by auto
  let ?s1 = "drain_join t0 (join_thd ti) s"
  from r t0 Thread_exit obtain s2 where rn: "run_next Site_exit c s2 = Switched s'"
    and f: "threads s2 = threads ?s1"
    by (cases "parent ti")
       (auto simp add: exit_body_def Let_def run_next_result split: option.splits)
  have "threads s2 t = threads s t"
    using f t0(2) tne by (simp add: drain_join_threads)
  with run_next_waiting [OF rn, of t w] w show ?thesis by (simp add: waiting_on_def)
qed

lemma resume_waiting:
  assumes p1: "parked1 s" and r: "result (resume c s) = Some s'" and w: "waiting_on s t w"
  shows "waiting_on s' t w"
proof -
  from r obtain n ni where n: "current c s = Some n" "threads s n = Some ni"
    by (auto simp add: resume_def split: option.splits)
  have rq: "waiting_on s1 t w" if "reclaim s = Returned s1" for s1
  proof -
    have rr: "result (reclaim s) = Some s1" using that by simp
    note f = reclaim_result [OF rr]
    have "last_free_thread s \<noteq> Some t"
      using p1 w by (auto simp add: parked1_def waiting_on_def)
    thus ?thesis using f(9) w by (auto simp add: waiting_on_def split: option.splits)
  qed
  show ?thesis
  proof (cases "uc ni")
    case (Entry fn)
    with r n have "result (then_do (reclaim s) (\<lambda>s1. Returned (unlock c s1))) = Some s'"
      by (simp add: resume_def thread_start_entry_def)
    then obtain s1 where s1: "reclaim s = Returned s1" "s' = unlock c s1"
      by (cases "reclaim s") (auto simp add: then_do_def)
    thus ?thesis using rq [OF s1(1)] by simp
  next
    case (Saved site)
    with r n have "result (then_do (reclaim s) (after_run_next site c)) = Some s'"
      by (simp add: resume_def)
    then obtain s1 where s1: "reclaim s = Returned s1"
      and r1: "result (after_run_next site c s1) = Some s'"
      by (cases "reclaim s") (auto simp add: then_do_def)
    note w1 = rq [OF s1]
    show ?thesis
    proof (cases site)
      case (Site_cv_wait m)
      with r1 obtain s2 where "result (mutex_impl_lock (Site_cv_relock m) m c s1) = Some s2"
        "s' = s2 \<or> s' = unlock c s2"
        by (auto simp add: after_run_next_def result_then_do)
      thus ?thesis using mutex_impl_lock_waiting [of "Site_cv_relock m" m c s1 s2 t w] w1 by auto
    qed (use r1 w1 in \<open>auto simp add: after_run_next_def waiting_on_def unlock_def\<close>)
  qed
qed

lemma waiting_blocked:
  assumes ok: "state_ok s" and w: "waiting_on s t w"
  shows "current_thd s c \<noteq> Some w"
proof
  assume cur: "current_thd s c = Some w"
  from w obtain ti where ti: "threads s t = Some ti" "Some w \<in> set (join_thd ti)"
    by (auto simp add: waiting_on_def)
  from ok obtain p where p: "\<forall>q. q \<noteq> p \<longrightarrow> cnt (refs s) q w = 0"
    unfolding state_ok_def refs_ok_def single_ref_def by blast
  have "0 < cnt (refs s) (P_cpu c) w" using cur by (simp add: cnt_def)
  moreover have "count_list (join_thd ti) (Some w) \<noteq> 0"
    using ti(2) by (simp add: count_list_0_iff)
  hence "0 < cnt (refs s) (P_join t) w"
    using ti(1) by (simp add: cnt_def)
  ultimately have "P_cpu c = p \<and> P_join t = p" using p by auto
  hence "P_cpu c = P_join t" by simp
  thus False by simp
qed

section \<open>Resuming under the invariant\<close>

lemma refs_unique:
  assumes ok: "state_ok s" and "0 < cnt (refs s) p t" and "0 < cnt (refs s) q t"
  shows "p = q"
proof -
  from ok obtain r where r: "\<forall>q. q \<noteq> r \<longrightarrow> cnt (refs s) q t = 0"
    unfolding state_ok_def refs_ok_def single_ref_def by blast
  have "p = r \<and> q = r" using r assms(2,3) by auto
  thus ?thesis by simp
qed

lemma current_live:
  assumes ok: "state_ok s" and cur: "current_thd s c = Some t"
  shows "threads s t \<noteq> None" "last_free_thread s \<noteq> Some t"
    "\<And>c'. current_thd s c' = Some t \<Longrightarrow> c' = c"
    "\<And>m mi. mutexes s m = Some mi \<Longrightarrow> Some t \<notin> set (thd_q mi)"
    "\<And>v q. cvs s v = Some q \<Longrightarrow> Some t \<notin> set q"
proof -
  have pos: "0 < cnt (refs s) (P_cpu c) t" using cur by (simp add: cnt_def)
  show "threads s t \<noteq> None"
    using ok pos unfolding state_ok_def refs_ok_def all_live_def by blast
  show "last_free_thread s \<noteq> Some t"
  proof
    assume "last_free_thread s = Some t"
    hence "0 < cnt (refs s) P_free t" by (simp add: cnt_def)
    from refs_unique [OF ok pos this] show False by simp
  qed
  show "c' = c" if "current_thd s c' = Some t" for c'
  proof -
    have "0 < cnt (refs s) (P_cpu c') t" using that by (simp add: cnt_def)
    from refs_unique [OF ok pos this] show ?thesis by simp
  qed
  show "Some t \<notin> set (thd_q mi)" if "mutexes s m = Some mi" for m mi
  proof
    assume "Some t \<in> set (thd_q mi)"
    hence "count_list (thd_q mi) (Some t) \<noteq> 0" by (simp add: count_list_0_iff)
    hence "0 < cnt (refs s) (P_mutex m) t" using that by (simp add: cnt_def)
    from refs_unique [OF ok pos this] show False by simp
  qed
  show "Some t \<notin> set q" if "cvs s v = Some q" for v q
  proof
    assume "Some t \<in> set q"
    hence "count_list q (Some t) \<noteq> 0" by (simp add: count_list_0_iff)
    hence "0 < cnt (refs s) (P_cv v) t" using that by (simp add: cnt_def)
    from refs_unique [OF ok pos this] show False by simp
  qed
qed

lemma after_run_next_dom:
  assumes "result (after_run_next site c s) = Some s'"
  shows "(threads s' t = None) = (threads s t = None)"
proof (cases site)
  case (Site_cv_wait m)
  with assms obtain s2 where s2: "result (mutex_impl_lock (Site_cv_relock m) m c s) = Some s2"
    "s' = s2 \<or> s' = unlock c s2"
    by (auto simp add: after_run_next_def result_then_do)
  from s2(1) obtain mi where mi: "mutexes s m = Some mi"
    by (auto simp add: mutex_impl_lock_def split: option.splits)
  have "(threads s2 t = None) = (threads s t = None)"
  proof (cases "own_thd mi = None")
    case True
    with s2(1) mi show ?thesis by (auto simp add: mutex_impl_lock_def)
  next
    case False
    with s2(1) mi have rn: "run_next (Site_cv_relock m) c
        (s\<lparr>mutexes := (mutexes s)(m \<mapsto> mi\<lparr>thd_q := thd_q mi @ [current c s]\<rparr>)\<rparr>) = Switched s2"
      by (simp add: mutex_impl_lock_def run_next_result)
    from run_next_frame(9) [OF rn] show ?thesis by simp
  qed
  thus ?thesis using s2(2) by (auto simp add: unlock_def)
qed (use assms in \<open>auto simp add: after_run_next_def unlock_def\<close>)

lemma resume_cases:
  assumes "result (resume c s) = Some s'"
  obtains t ti s1 where "current c s = Some t" "threads s t = Some ti" "reclaim s = Returned s1"
    "case uc ti of Entry fn \<Rightarrow> resume c s = Returned s' \<and> s' = unlock c s1
       | Saved site \<Rightarrow> resume c s = after_run_next site c s1"
proof -
  from assms obtain t ti where t: "current c s = Some t" "threads s t = Some ti"
    by (auto simp add: resume_def split: option.splits)
  show ?thesis
  proof (cases "uc ti")
    case (Entry fn)
    with assms t have e: "resume c s = then_do (reclaim s) (\<lambda>s1. Returned (unlock c s1))"
      by (simp add: resume_def thread_start_entry_def)
    with assms obtain s1 where s1: "reclaim s = Returned s1" "s' = unlock c s1"
      by (cases "reclaim s") (auto simp add: then_do_def)
    show ?thesis
      by (rule that [OF t s1(1)]) (simp add: Entry e s1 then_do_def)
  next
    case (Saved site)
    with assms t have e: "resume c s = then_do (reclaim s) (after_run_next site c)"
      by (simp add: resume_def)
    with assms obtain s1 where s1: "reclaim s = Returned s1"
      by (cases "reclaim s") (auto simp add: then_do_def)
    show ?thesis
      by (rule that [OF t s1]) (simp add: Saved e s1 then_do_def)
  qed
qed

lemma resume_dom:
  assumes "result (resume c s) = Some s'"
  shows "(threads s' t = None) = (threads s t = None \<or> last_free_thread s = Some t)"
proof -
  from assms obtain n ni s1 where n: "current c s = Some n" "threads s n = Some ni"
    and s1: "reclaim s = Returned s1"
    and k: "case uc ni of Entry fn \<Rightarrow> resume c s = Returned s' \<and> s' = unlock c s1
       | Saved site \<Rightarrow> resume c s = after_run_next site c s1"
    by (rule resume_cases)
  have rr: "result (reclaim s) = Some s1" using s1 by simp
  have 1: "(threads s1 t = None) = (threads s t = None \<or> last_free_thread s = Some t)"
    using reclaim_result(9) [OF rr] by (auto split: option.splits)
  show ?thesis
  proof (cases "uc ni")
    case (Entry fn)
    with k 1 show ?thesis by (simp add: unlock_def)
  next
    case (Saved site)
    with k assms have "result (after_run_next site c s1) = Some s'" by simp
    from after_run_next_dom [OF this, of t] 1 show ?thesis by simp
  qed
qed

lemma queued_live:
  assumes "state_ok s" and "Some n \<in> set (refs s p)"
  shows "threads s n \<noteq> None"
proof -
  have "count_list (refs s p) (Some n) \<noteq> 0" using assms(2) by (simp add: count_list_0_iff)
  hence "0 < cnt (refs s) p n" by (simp add: cnt_def)
  with assms(1) show ?thesis unfolding state_ok_def refs_ok_def by (auto dest: all_liveD)
qed

lemma head_in:
  assumes "rq \<noteq> [] \<or> iq \<noteq> []" and "(if rq \<noteq> [] then hd rq else hd iq) = x"
  shows "x \<in> set rq \<union> set iq"
  using assms by (auto split: if_splits)

lemma run_next_defined:
  assumes "ready_queue s \<noteq> [] \<or> idle_queue s \<noteq> []"
    and "(if ready_queue s \<noteq> [] then hd (ready_queue s) else hd (idle_queue s)) = Some n"
    and "threads s n \<noteq> None"
    and "\<And>t. current c s = Some t \<Longrightarrow> threads s t \<noteq> None"
  shows "\<exists>s'. run_next site c s = Switched s'"
  using assms
  by (cases "current_thd s c")
     (auto simp add: run_next_def switch_context_def current_def Let_def split: if_splits)

lemma lock_guard_switched:
  assumes "\<not> guard s" and "body (locked c s) = Switched s'"
  shows "lock_guard c body s = Some (Switched s')"
  using assms by (simp add: lock_guard_free locked_def)

lemma state_ok_locked [simp]: "state_ok (locked c s) = state_ok s"
  by (simp add: locked_def)

lemma join_body_defined:
  assumes ok: "state_ok s" and h: "handles s h = Some (Some t)" and t: "threads s t = Some ti"
    and ne: "ready_queue s \<noteq> [] \<or> idle_queue s \<noteq> []"
    and hd: "(if ready_queue s \<noteq> [] then hd (ready_queue s) else hd (idle_queue s)) = Some n"
  shows "\<exists>s'. join_body h c s = Switched s'"
proof -
  let ?s2 = "s\<lparr>threads := (threads s)(t \<mapsto> ti\<lparr>join_thd := join_thd ti @ [current c s]\<rparr>)\<rparr>"
  have "Some n \<in> set (refs s P_ready) \<union> set (refs s P_idle)" using head_in [OF ne hd] by simp
  hence live: "threads s n \<noteq> None" using queued_live [OF ok] by blast
  have cl: "threads s w \<noteq> None" if "current c s = Some w" for w
    using current_live(1) [OF ok, of c w] that by (simp add: current_def)
  have "\<exists>s'. run_next Site_join c ?s2 = Switched s'"
    by (rule run_next_defined [where n = n]) (use ne hd live cl in \<open>auto simp add: current_def\<close>)
  thus ?thesis using h t by (simp add: join_body_def)
qed

lemma cv_impl_wait_defined:
  assumes ok: "state_ok s" and m: "mutexes s m = Some mi" and own: "own_thd mi = current c s"
    and q: "cvs s v = Some q"
    and ne: "ready_queue s @ take 1 (thd_q mi) \<noteq> [] \<or> idle_queue s \<noteq> []"
    and hd: "(if ready_queue s @ take 1 (thd_q mi) \<noteq> [] then hd (ready_queue s @ take 1 (thd_q mi))
             else hd (idle_queue s)) = Some n"
  shows "\<exists>s'. cv_impl_wait v m c s = Switched s'"
proof -
  obtain s1 where u: "mutex_impl_unlock m c s = Returned s1"
    and f: "cvs s1 = cvs s" "current c s1 = current c s" "threads s1 = threads s"
      "ready_queue s1 = ready_queue s @ take 1 (thd_q mi)" "idle_queue s1 = idle_queue s"
    using m own
    by (cases mi; cases "thd_q mi")
       (auto simp add: mutex_impl_unlock_def Let_def current_def)
  let ?s2 = "s1\<lparr>cvs := (cvs s1)(v \<mapsto> q @ [current c s1])\<rparr>"
  have "Some n \<in> set (ready_queue s @ take 1 (thd_q mi)) \<union> set (idle_queue s)"
    by (rule head_in [OF ne hd])
  hence "Some n \<in> set (refs s P_ready) \<union> set (refs s (P_mutex m)) \<union> set (refs s P_idle)"
    using m by (auto dest: in_set_takeD)
  hence live: "threads s n \<noteq> None" using queued_live [OF ok] by blast
  have cl: "threads s w \<noteq> None" if "current c s = Some w" for w
    using current_live(1) [OF ok, of c w] that by (simp add: current_def)
  have "\<exists>s'. run_next (Site_cv_wait m) c ?s2 = Switched s'"
    by (rule run_next_defined [where n = n]) (use ne hd live cl f in \<open>auto simp add: current_def\<close>)
  thus ?thesis using u f(1) q by (simp add: cv_impl_wait_def then_do_def)
qed

lemma exit_body_defined:
  assumes ok: "state_ok s" and cur: "current c s = Some t" and t: "threads s t = Some ti"
    and par: "\<forall>h. parent ti = Some h \<longrightarrow> handles s h \<noteq> None"
    and ne: "ready_queue s @ join_thd ti \<noteq> [] \<or> idle_queue s \<noteq> []"
    and hd: "(if ready_queue s @ join_thd ti \<noteq> [] then hd (ready_queue s @ join_thd ti)
             else hd (idle_queue s)) = Some n"
  shows "\<exists>s'. exit_body c s = Switched s'"
proof -
  let ?s1 = "drain_join t (join_thd ti) s"
  have "Some n \<in> set (ready_queue s @ join_thd ti) \<union> set (idle_queue s)"
    by (rule head_in [OF ne hd])
  hence "Some n \<in> set (refs s P_ready) \<union> set (refs s (P_join t)) \<union> set (refs s P_idle)"
    using t by auto
  hence live: "threads s n \<noteq> None" using queued_live [OF ok] by blast
  have live1: "threads ?s1 n \<noteq> None" "threads ?s1 t \<noteq> None"
    using live t by (simp_all add: drain_join_threads)
  have rn: "\<exists>s'. run_next Site_exit c (?s1\<lparr>handles := H, last_free_thread := Some t\<rparr>) = Switched s'" for H
    by (rule run_next_defined [where n = n]) (use ne hd live1 cur in \<open>auto simp add: current_def\<close>)
  have rn0: "\<exists>s'. run_next Site_exit c (?s1\<lparr>last_free_thread := Some t\<rparr>) = Switched s'"
    by (rule run_next_defined [where n = n]) (use ne hd live1 cur in \<open>auto simp add: current_def\<close>)
  show ?thesis
  proof (cases "parent ti")
    case None
    thus ?thesis using cur t rn0 by (simp add: exit_body_def Let_def)
  next
    case (Some h)
    with par obtain p where "handles s h = Some p" by auto
    thus ?thesis using cur t Some rn [of "(handles s)(h \<mapsto> None)"]
      by (simp add: exit_body_def Let_def)
  qed
qed

lemma resume_defined:
  assumes ok: "config_ok (Pending c s)" and cur: "current c s = Some t" and t: "threads s t = Some ti"
  shows "uc ti \<noteq> Saved Site_exit"
    and "\<exists>s1. reclaim s = Returned s1"
    and "(\<And>m. uc ti \<noteq> Saved (Site_cv_wait m)) \<Longrightarrow> \<exists>s'. resume c s = Returned s'"
    and "uc ti = Saved (Site_cv_wait m) \<Longrightarrow> mutexes s m = Some mi \<Longrightarrow> own_thd mi = None \<Longrightarrow>
           \<exists>s'. resume c s = Returned s'"
    and "uc ti = Saved (Site_cv_wait m) \<Longrightarrow> mutexes s m = Some mi \<Longrightarrow> own_thd mi \<noteq> None \<Longrightarrow>
           ready_queue s \<noteq> [] \<or> idle_queue s \<noteq> [] \<Longrightarrow>
           (if ready_queue s \<noteq> [] then hd (ready_queue s) else hd (idle_queue s)) = Some n \<Longrightarrow>
           \<exists>s'. resume c s = Switched s'"
proof -
  have sok: "state_ok s" and p1: "parked1 s" and fo: "free_ok s" using ok by simp_all
  have ct: "current_thd s c = Some t" using cur by (simp add: current_def)
  show ne: "uc ti \<noteq> Saved Site_exit"
  proof
    assume "uc ti = Saved Site_exit"
    hence "exited s t" using t by (simp add: exited_def)
    hence "last_free_thread s = Some t" using p1 by (simp add: parked1_def)
    thus False using current_live(2) [OF sok ct] by simp
  qed
  from reclaim_defined [OF sok fo] obtain s1 where r: "reclaim s = Returned s1" by blast
  thus "\<exists>s1. reclaim s = Returned s1" by blast
  have rr: "result (reclaim s) = Some s1" using r by simp
  note f = reclaim_result [OF rr]
  {
    assume nw: "\<And>m. uc ti \<noteq> Saved (Site_cv_wait m)"
    show "\<exists>s'. resume c s = Returned s'"
    proof (cases "uc ti")
      case (Entry fn)
      thus ?thesis using cur t r by (simp add: resume_def thread_start_entry_def then_do_def)
    next
      case (Saved site)
      with ne nw have "site \<noteq> Site_exit" "\<forall>m. site \<noteq> Site_cv_wait m" by auto
      hence "\<exists>s'. after_run_next site c s1 = Returned s'"
        by (cases site) (simp_all add: after_run_next_def)
      thus ?thesis using cur t r Saved by (simp add: resume_def then_do_def)
    qed
  }
  {
    assume u: "uc ti = Saved (Site_cv_wait m)" and m: "mutexes s m = Some mi" and o: "own_thd mi = None"
    have "mutexes s1 m = Some mi" using f(1) m by simp
    hence "\<exists>s'. after_run_next (Site_cv_wait m) c s1 = Returned s'"
      using o by (simp add: after_run_next_def mutex_impl_lock_def then_do_def)
    thus "\<exists>s'. resume c s = Returned s'" using cur t r u by (simp add: resume_def then_do_def)
  }
  {
    assume u: "uc ti = Saved (Site_cv_wait m)" and m: "mutexes s m = Some mi" and o: "own_thd mi \<noteq> None"
      and ne: "ready_queue s \<noteq> [] \<or> idle_queue s \<noteq> []"
      and hd: "(if ready_queue s \<noteq> [] then hd (ready_queue s) else hd (idle_queue s)) = Some n"
    have m1: "mutexes s1 m = Some mi" using f(1) m by simp
    have sok1: "state_ok s1" by (rule reclaim_state_ok [OF sok r])
    have "Some n \<in> set (refs s1 P_ready) \<union> set (refs s1 P_idle)"
      using head_in [OF ne hd] f(4,5) by simp
    hence live: "threads s1 n \<noteq> None" using queued_live [OF sok1] by blast
    have cl: "threads s1 w \<noteq> None" if "current c s1 = Some w" for w
      using current_live(1) [OF sok1, of c w] that by (simp add: current_def)
    let ?s2 = "s1\<lparr>mutexes := (mutexes s1)(m \<mapsto> mi\<lparr>thd_q := thd_q mi @ [current c s1]\<rparr>)\<rparr>"
    have "\<exists>s'. run_next (Site_cv_relock m) c ?s2 = Switched s'"
      by (rule run_next_defined [where n = n])
         (use ne hd live cl f(4,5) in \<open>auto simp add: current_def\<close>)
    hence "\<exists>s'. after_run_next (Site_cv_wait m) c s1 = Switched s'"
      using m1 o by (auto simp add: after_run_next_def mutex_impl_lock_def then_do_def)
    thus "\<exists>s'. resume c s = Switched s'" using cur t r u by (simp add: resume_def then_do_def)
  }
qed

lemma exit_body_effect:
  assumes ex: "exit_body c s = Switched s'" and cur: "current c s = Some t"
  shows "last_free_thread s' = Some t \<and> exited s' t \<and> guard s' = guard s"
proof -
  from ex cur obtain ti where ti: "threads s t = Some ti"
    by (auto simp add: exit_body_def split: option.splits)
  let ?s1 = "drain_join t (join_thd ti) s"
  from ex cur ti obtain s2 where rn: "run_next Site_exit c s2 = Switched s'"
    and f: "last_free_thread s2 = Some t" "current_thd s2 = current_thd ?s1"
      "threads s2 = threads ?s1" "guard s2 = guard ?s1"
    by (cases "parent ti")
       (auto simp add: exit_body_def Let_def run_next_result split: option.splits)
  note fr = run_next_frame [OF rn]
  have live: "threads s2 t \<noteq> None" using f(3) ti by (simp add: drain_join_threads)
  have "exited s' t"
    using run_next_exited [OF rn, of t] f(2) cur live by (simp add: current_def)
  thus ?thesis using fr(4,6) f by simp
qed

lemma call_exit_switched:
  assumes "thread_start_exit c s = Some (Switched s')"
  shows "\<not> guard s \<and> exit_body c (locked c s) = Switched s'"
  using call_cases [of c Thread_exit s "Switched s'"] assms
  by (auto split: outcome.splits)

lemma join_null:
  assumes "\<not> guard s" and "handles s h = Some None"
  shows "thread_join h c s = Some (Returned (s\<lparr>interrupts := (interrupts s)(c := True)\<rparr>))"
  using assms by (simp add: thread_join_def lock_guard_free join_body_def unlock_def)

lemma join_body_owning:
  assumes h: "handles s h = Some (Some t)" and t: "threads s t = Some ti"
  shows "join_body h c s \<noteq> Returned s'" "join_body h c s \<noteq> Threw x s'"
    "join_body h c s = Switched s' \<Longrightarrow>
       map_option join_thd (threads s' t) = Some (join_thd ti @ [current c s]) \<and> guard s' = guard s"
proof -
  have e: "join_body h c s = run_next Site_join c
      (s\<lparr>threads := (threads s)(t \<mapsto> ti\<lparr>join_thd := join_thd ti @ [current c s]\<rparr>)\<rparr>)"
    using h t by (simp add: join_body_def)
  show "join_body h c s \<noteq> Returned s'" "join_body h c s \<noteq> Threw x s'" by (simp_all add: e)
  assume "join_body h c s = Switched s'"
  hence rn: "run_next Site_join c
      (s\<lparr>threads := (threads s)(t \<mapsto> ti\<lparr>join_thd := join_thd ti @ [current c s]\<rparr>)\<rparr>) = Switched s'"
    by (simp add: e)
  have "map_option join_thd (threads s' t) = Some (join_thd ti @ [current c s])"
    using run_next_frame(9) [OF rn] by simp
  thus "map_option join_thd (threads s' t) = Some (join_thd ti @ [current c s]) \<and> guard s' = guard s"
    using run_next_frame(4) [OF rn] by simp
qed

lemma run_next_ready:
  assumes "run_next site c s = Switched s'" and "ready_queue s \<noteq> []"
  shows "current_thd s' c = hd (ready_queue s) \<and> ready_queue s' = tl (ready_queue s)"
proof -
  from run_next_Switched [OF assms(1)] assms(2) obtain n where
    "hd (ready_queue s) = Some n"
    "s' = s\<lparr>current_thd := (current_thd s)(c := Some n),
            ready_queue := tl (ready_queue s),
            threads := saved_uc site (current c s) (threads s),
            switches := switches s @ [switch_entry (current c s) n]\<rparr>"
    by auto
  thus ?thesis by simp
qed

lemma exit_body_drains:
  assumes ex: "exit_body c s = Switched s'" and cur: "current c s = Some t"
    and t: "threads s t = Some ti"
  shows "map_option join_thd (threads s' t) = Some []
       \<and> (ready_queue s @ join_thd ti \<noteq> [] \<longrightarrow>
            current_thd s' c = hd (ready_queue s @ join_thd ti)
            \<and> ready_queue s' = tl (ready_queue s @ join_thd ti))"
proof -
  let ?s1 = "drain_join t (join_thd ti) s"
  from ex cur t obtain s2 where rn: "run_next Site_exit c s2 = Switched s'"
    and f: "ready_queue s2 = ready_queue ?s1" "threads s2 = threads ?s1"
    by (cases "parent ti")
       (auto simp add: exit_body_def Let_def run_next_result split: option.splits)
  have "map_option join_thd (threads s' t) = map_option join_thd (threads s2 t)"
    using run_next_frame(9) [OF rn] by simp
  also have "\<dots> = Some []" using f(2) t by (simp add: drain_join_threads)
  finally have 1: "map_option join_thd (threads s' t) = Some []" .
  have 2: "ready_queue s2 = ready_queue s @ join_thd ti" using f(1) by simp
  show ?thesis using 1 2 run_next_ready [OF rn] by simp
qed

text \<open>
  What \<open>join\<close> guarantees for the thread that the pointer of the handle points at, in every
  configuration that an execution reaches from a configuration satisfying the invariant:
  \<^item> \<open>join\<close> on a handle whose pointer is null returns, throws nothing and leaves the state
    as it was, up to the interrupts of the calling CPU, which are enabled on return;
  \<^item> \<open>join\<close> on a handle whose pointer is not null does not return before a switch; when
    it has switched, the caller is at the end of \<open>join_thd\<close> of the thread pointed at, the
    guard is held and the caller no longer runs on the CPU;
  \<^item> a thread in \<open>join_thd\<close> of thread \<open>t\<close> runs on no CPU, and it stays in that queue over
    every step other than the exit part of \<open>thread_start\<close> run by \<open>t\<close> itself;
  \<^item> the exit part of \<open>thread_start\<close> empties \<open>join_thd\<close> of the exiting thread into the
    ready queue, in order, before it picks the next thread;
  \<^item> \<open>join\<close> on a handle whose pointer is not null, called with the guard free, does
    switch, provided a thread is there to switch to;
  \<^item> a thread resumed at the \<open>run_next\<close> of \<open>join\<close> does return from \<open>join\<close>, with the guard
    released;
  \<^item> the exit part of \<open>thread_start\<close>, run with the guard free by a thread whose \<open>parent\<close>
    is null or points at a handle that exists, does switch and does empty \<open>join_thd\<close>,
    provided a thread is there to switch to.
\<close>

lemma join_waits_for_target:
  assumes "config_ok cf0" and "trans\<^sup>*\<^sup>* cf0 cf"
  shows "(\<forall>c s h. cf = Running s \<and> \<not> guard s \<and> handles s h = Some None \<longrightarrow>
            thread_join h c s = Some (Returned (s\<lparr>interrupts := (interrupts s)(c := True)\<rparr>)))
       \<and> (\<forall>c s h t ti w s'. cf = Running s \<and> handles s h = Some (Some t) \<and> threads s t = Some ti
            \<and> current c s = Some w \<longrightarrow>
            thread_join h c s \<noteq> Some (Returned s')
            \<and> (thread_join h c s = Some (Switched s') \<longrightarrow>
                 map_option join_thd (threads s' t) = Some (join_thd ti @ [Some w])
                 \<and> guard s' \<and> current_thd s' c \<noteq> Some w))
       \<and> (\<forall>t w. waiting_on (state_of cf) t w \<longrightarrow>
            (\<forall>c. current_thd (state_of cf) c \<noteq> Some w)
            \<and> (\<forall>cf'. trans cf cf' \<longrightarrow>
                 waiting_on (state_of cf') t w
                 \<or> (\<exists>c s s'. cf = Running s \<and> current c s = Some t
                      \<and> thread_start_exit c s = Some (Switched s') \<and> cf' = Pending c s')))
       \<and> (\<forall>c s t ti s'. cf = Running s \<and> current c s = Some t \<and> threads s t = Some ti
            \<and> thread_start_exit c s = Some (Switched s') \<longrightarrow>
            map_option join_thd (threads s' t) = Some []
            \<and> (ready_queue s @ join_thd ti \<noteq> [] \<longrightarrow>
                 current_thd s' c = hd (ready_queue s @ join_thd ti)
                 \<and> ready_queue s' = tl (ready_queue s @ join_thd ti)))
       \<and> (\<forall>c s h t ti. cf = Running s \<and> \<not> guard s \<and> handles s h = Some (Some t)
            \<and> threads s t = Some ti
            \<and> (ready_queue s \<noteq> [] \<or> idle_queue s \<noteq> [])
            \<and> (if ready_queue s \<noteq> [] then hd (ready_queue s) else hd (idle_queue s)) \<noteq> None \<longrightarrow>
            (\<exists>s'. thread_join h c s = Some (Switched s')))
       \<and> (\<forall>c s w wi. cf = Pending c s \<and> current c s = Some w \<and> threads s w = Some wi
            \<and> uc wi = Saved Site_join \<longrightarrow>
            (\<exists>s'. resume c s = Returned s' \<and> \<not> guard s'))
       \<and> (\<forall>c s t ti. cf = Running s \<and> \<not> guard s \<and> current c s = Some t \<and> threads s t = Some ti
            \<and> (\<forall>h. parent ti = Some h \<longrightarrow> handles s h \<noteq> None)
            \<and> (ready_queue s @ join_thd ti \<noteq> [] \<or> idle_queue s \<noteq> [])
            \<and> (if ready_queue s @ join_thd ti \<noteq> [] then hd (ready_queue s @ join_thd ti)
                else hd (idle_queue s)) \<noteq> None \<longrightarrow>
            (\<exists>s'. thread_start_exit c s = Some (Switched s')
                \<and> map_option join_thd (threads s' t) = Some []
                \<and> (ready_queue s @ join_thd ti \<noteq> [] \<longrightarrow>
                     current_thd s' c = hd (ready_queue s @ join_thd ti)
                     \<and> ready_queue s' = tl (ready_queue s @ join_thd ti))))"
proof -
  have ok: "config_ok cf" by (rule reach_config_ok [OF assms(2,1)])
  have sok: "state_ok (state_of cf)" using ok by (cases cf) simp_all
  have p1: "parked1 (state_of cf)" using ok by (cases cf) (simp_all add: parked0_imp_parked1)
  have 1: "\<forall>c s h. cf = Running s \<and> \<not> guard s \<and> handles s h = Some None \<longrightarrow>
            thread_join h c s = Some (Returned (s\<lparr>interrupts := (interrupts s)(c := True)\<rparr>))"
    using join_null by blast
  have 2: "\<forall>c s h t ti w s'. cf = Running s \<and> handles s h = Some (Some t) \<and> threads s t = Some ti
            \<and> current c s = Some w \<longrightarrow>
            thread_join h c s \<noteq> Some (Returned s')
            \<and> (thread_join h c s = Some (Switched s') \<longrightarrow>
                 map_option join_thd (threads s' t) = Some (join_thd ti @ [Some w])
                 \<and> guard s' \<and> current_thd s' c \<noteq> Some w)"
  proof (intro allI impI, elim conjE)
    fix c s h t ti w s'
    assume cf: "cf = Running s" and h: "handles s h = Some (Some t)"
      and t: "threads s t = Some ti" and cur: "current c s = Some w"
    have hl: "handles (locked c s) h = Some (Some t)" "threads (locked c s) t = Some ti"
      "current c (locked c s) = Some w"
      using h t cur by (simp_all add: locked_def current_def)
    note jb = join_body_owning [OF hl(1,2), of c]
    have a: "thread_join h c s \<noteq> Some (Returned s')"
    proof
      assume "thread_join h c s = Some (Returned s')"
      from call_cases [of c "Thread_join h" s, simplified, OF this] jb(1,2) show False
        by (auto split: outcome.splits)
    qed
    have b: "map_option join_thd (threads s' t) = Some (join_thd ti @ [Some w])
                 \<and> guard s' \<and> current_thd s' c \<noteq> Some w"
      if sw: "thread_join h c s = Some (Switched s')"
    proof -
      from call_cases [of c "Thread_join h" s, simplified, OF sw]
      have js: "join_body h c (locked c s) = Switched s'" by (auto split: outcome.splits)
      from jb(3) [OF js] hl(3)
      have e: "map_option join_thd (threads s' t) = Some (join_thd ti @ [Some w])" "guard s'"
        by (simp_all add: locked_def)
      have "trans (Running s) (Pending c s')"
        by (rule call_switched [of c "Thread_join h"]) (use cur sw in simp_all)
      hence "config_ok (Pending c s')" using ok cf trans_config_ok by blast
      hence sok': "state_ok s'" by simp
      have "waiting_on s' t w" using e(1) by (auto simp add: waiting_on_def)
      from waiting_blocked [OF sok' this, of c] e show ?thesis by simp
    qed
    from a b show "thread_join h c s \<noteq> Some (Returned s')
            \<and> (thread_join h c s = Some (Switched s') \<longrightarrow>
                 map_option join_thd (threads s' t) = Some (join_thd ti @ [Some w])
                 \<and> guard s' \<and> current_thd s' c \<noteq> Some w)" by blast
  qed
  have 3: "\<forall>t w. waiting_on (state_of cf) t w \<longrightarrow>
            (\<forall>c. current_thd (state_of cf) c \<noteq> Some w)
            \<and> (\<forall>cf'. trans cf cf' \<longrightarrow>
                 waiting_on (state_of cf') t w
                 \<or> (\<exists>c s s'. cf = Running s \<and> current c s = Some t
                      \<and> thread_start_exit c s = Some (Switched s') \<and> cf' = Pending c s'))"
  proof (intro allI impI conjI)
    fix t w c assume "waiting_on (state_of cf) t w"
    thus "current_thd (state_of cf) c \<noteq> Some w" by (rule waiting_blocked [OF sok])
  next
    fix t w cf' assume w: "waiting_on (state_of cf) t w" and tr: "trans cf cf'"
    from tr show "waiting_on (state_of cf') t w
         \<or> (\<exists>c s s'. cf = Running s \<and> current c s = Some t
              \<and> thread_start_exit c s = Some (Switched s') \<and> cf' = Pending c s')"
    proof (cases rule: trans.cases)
      case (call_returned c e s s')
      from call_cases [OF call_returned(4)] obtain s2 where
        b: "body_of c e (locked c s) = Returned s2" "s' = unlock c s2"
        by (auto split: outcome.splits)
      have "e \<noteq> Thread_exit" using b(1) by auto
      hence "waiting_on s2 t w"
        using body_waiting [of c e "locked c s" s2 t w] b(1) w call_returned by simp
      thus ?thesis using b(2) call_returned by simp
    next
      case (call_threw c e s x s')
      from call_cases [OF call_threw(4)] obtain s2 where
        b: "body_of c e (locked c s) = Threw x s2" "s' = unlock c s2"
        by (auto split: outcome.splits)
      have "e \<noteq> Thread_exit" using b(1) by auto
      hence "waiting_on s2 t w"
        using body_waiting [of c e "locked c s" s2 t w] b(1) w call_threw by simp
      thus ?thesis using b(2) call_threw by simp
    next
      case (call_switched c e s s')
      from call_cases [OF call_switched(4)] have
        b: "body_of c e (locked c s) = Switched s'"
        by (auto split: outcome.splits)
      show ?thesis
      proof (cases "e = Thread_exit \<and> current c s = Some t")
        case True
        thus ?thesis using call_switched by simp
      next
        case False
        hence "\<not> (e = Thread_exit \<and> current c (locked c s) = Some t)"
          by (simp add: locked_def current_def)
        hence "waiting_on s' t w"
          using body_waiting [of c e "locked c s" s' t w] b w call_switched by simp
        thus ?thesis using call_switched by simp
      qed
    next
      case (resume_returned c s s')
      thus ?thesis using resume_waiting [of s c s' t w] p1 w by simp
    next
      case (resume_switched c s s')
      thus ?thesis using resume_waiting [of s c s' t w] p1 w by simp
    qed
  qed
  have 4: "\<forall>c s t ti s'. cf = Running s \<and> current c s = Some t \<and> threads s t = Some ti
            \<and> thread_start_exit c s = Some (Switched s') \<longrightarrow>
            map_option join_thd (threads s' t) = Some []
            \<and> (ready_queue s @ join_thd ti \<noteq> [] \<longrightarrow>
                 current_thd s' c = hd (ready_queue s @ join_thd ti)
                 \<and> ready_queue s' = tl (ready_queue s @ join_thd ti))"
  proof (intro allI impI, elim conjE)
    fix c s t ti s'
    assume cur: "current c s = Some t" and t: "threads s t = Some ti"
      and ex: "thread_start_exit c s = Some (Switched s')"
    from call_exit_switched [OF ex] have eb: "exit_body c (locked c s) = Switched s'" by simp
    from exit_body_drains [OF eb, of t ti] cur t
    show "map_option join_thd (threads s' t) = Some []
            \<and> (ready_queue s @ join_thd ti \<noteq> [] \<longrightarrow>
                 current_thd s' c = hd (ready_queue s @ join_thd ti)
                 \<and> ready_queue s' = tl (ready_queue s @ join_thd ti))"
      by (simp add: locked_def current_def)
  qed
  have 5: "(\<forall>c s h t ti. cf = Running s \<and> \<not> guard s \<and> handles s h = Some (Some t)
        \<and> threads s t = Some ti
        \<and> (ready_queue s \<noteq> [] \<or> idle_queue s \<noteq> [])
        \<and> (if ready_queue s \<noteq> [] then hd (ready_queue s) else hd (idle_queue s)) \<noteq> None \<longrightarrow>
        (\<exists>s'. thread_join h c s = Some (Switched s')))"
  proof (intro allI impI, elim conjE)
    fix c s h t ti
    assume cf: "cf = Running s" and g: "\<not> guard s" and h: "handles s h = Some (Some t)"
      and t: "threads s t = Some ti"
      and ne: "ready_queue s \<noteq> [] \<or> idle_queue s \<noteq> []"
      and hd: "(if ready_queue s \<noteq> [] then hd (ready_queue s) else hd (idle_queue s)) \<noteq> None"
    from hd obtain n where
      n: "(if ready_queue s \<noteq> [] then hd (ready_queue s) else hd (idle_queue s)) = Some n"
      by blast
    have "state_ok (locked c s)" using sok cf by simp
    hence "\<exists>s'. join_body h c (locked c s) = Switched s'"
      by (rule join_body_defined [where t = t and ti = ti and n = n])
         (use h t ne n in \<open>auto simp add: locked_def split: if_splits\<close>)
    thus "\<exists>s'. thread_join h c s = Some (Switched s')"
      using g by (auto simp add: thread_join_def lock_guard_switched)
  qed
  have 6: "(\<forall>c s w wi. cf = Pending c s \<and> current c s = Some w \<and> threads s w = Some wi
        \<and> uc wi = Saved Site_join \<longrightarrow>
        (\<exists>s'. resume c s = Returned s' \<and> \<not> guard s'))"
  proof (intro allI impI, elim conjE)
    fix c s w wi
    assume cf: "cf = Pending c s" and cur: "current c s = Some w" and w: "threads s w = Some wi"
      and u: "uc wi = Saved Site_join"
    have okp: "config_ok (Pending c s)" using ok cf by simp
    from resume_defined(2) [OF okp cur w] obtain s1 where r: "reclaim s = Returned s1" by blast
    have "resume c s = Returned (unlock c s1)"
      using cur w u r by (simp add: resume_def then_do_def after_run_next_def)
    thus "\<exists>s'. resume c s = Returned s' \<and> \<not> guard s'" by (simp add: unlock_def)
  qed
  have 7: "(\<forall>c s t ti. cf = Running s \<and> \<not> guard s \<and> current c s = Some t \<and> threads s t = Some ti
        \<and> (\<forall>h. parent ti = Some h \<longrightarrow> handles s h \<noteq> None)
        \<and> (ready_queue s @ join_thd ti \<noteq> [] \<or> idle_queue s \<noteq> [])
        \<and> (if ready_queue s @ join_thd ti \<noteq> [] then hd (ready_queue s @ join_thd ti)
            else hd (idle_queue s)) \<noteq> None \<longrightarrow>
        (\<exists>s'. thread_start_exit c s = Some (Switched s')
            \<and> map_option join_thd (threads s' t) = Some []
            \<and> (ready_queue s @ join_thd ti \<noteq> [] \<longrightarrow>
                 current_thd s' c = hd (ready_queue s @ join_thd ti)
                 \<and> ready_queue s' = tl (ready_queue s @ join_thd ti))))"
  proof (intro allI impI, elim conjE)
    fix c s t ti
    assume cf: "cf = Running s" and g: "\<not> guard s" and cur: "current c s = Some t"
      and t: "threads s t = Some ti" and par: "\<forall>h. parent ti = Some h \<longrightarrow> handles s h \<noteq> None"
      and ne: "ready_queue s @ join_thd ti \<noteq> [] \<or> idle_queue s \<noteq> []"
      and hd: "(if ready_queue s @ join_thd ti \<noteq> [] then hd (ready_queue s @ join_thd ti)
                else hd (idle_queue s)) \<noteq> None"
    from hd obtain n where n: "(if ready_queue s @ join_thd ti \<noteq> [] then hd (ready_queue s @ join_thd ti)
                else hd (idle_queue s)) = Some n" by blast
    have "state_ok (locked c s)" using sok cf by simp
    hence "\<exists>s'. exit_body c (locked c s) = Switched s'"
      by (rule exit_body_defined [where t = t and ti = ti and n = n])
         (use cur t par ne n in \<open>auto simp add: locked_def current_def split: if_splits\<close>)
    then obtain s' where ex: "thread_start_exit c s = Some (Switched s')"
      using g by (auto simp add: thread_start_exit_def lock_free locked_def)
    with 4 cf cur t have "map_option join_thd (threads s' t) = Some []
         \<and> (ready_queue s @ join_thd ti \<noteq> [] \<longrightarrow>
              current_thd s' c = hd (ready_queue s @ join_thd ti)
              \<and> ready_queue s' = tl (ready_queue s @ join_thd ti))"
      by blast
    with ex show "\<exists>s'. thread_start_exit c s = Some (Switched s')
                \<and> map_option join_thd (threads s' t) = Some []
                \<and> (ready_queue s @ join_thd ti \<noteq> [] \<longrightarrow>
                     current_thd s' c = hd (ready_queue s @ join_thd ti)
                     \<and> ready_queue s' = tl (ready_queue s @ join_thd ti))"
      by blast
  qed
  from 1 2 3 4 5 6 7 show ?thesis by blast
qed

lemma cv_impl_wait_owner:
  assumes m: "mutexes s m = Some mi" and own: "own_thd mi = current c s"
  shows "cv_impl_wait v m c s \<noteq> Returned s'" "cv_impl_wait v m c s \<noteq> Threw x s'"
    "cv_impl_wait v m c s = Switched s' \<Longrightarrow> cvs s v = Some q \<Longrightarrow>
       cvs s' v = Some (q @ [current c s])
       \<and> mutexes s' m = Some (case thd_q mi of [] \<Rightarrow> mi\<lparr>own_thd := None\<rparr>
                                | w # ws \<Rightarrow> \<lparr>own_thd = w, thd_q = ws\<rparr>)
       \<and> threads s' = saved_uc (Site_cv_wait m) (current c s) (threads s)
       \<and> guard s' = guard s"
proof -
  obtain s1 where u: "mutex_impl_unlock m c s = Returned s1"
    and f: "cvs s1 = cvs s" "current c s1 = current c s" "threads s1 = threads s" "guard s1 = guard s"
      "mutexes s1 m = Some (case thd_q mi of [] \<Rightarrow> mi\<lparr>own_thd := None\<rparr>
                                | w # ws \<Rightarrow> \<lparr>own_thd = w, thd_q = ws\<rparr>)"
    using m own
    by (cases mi; cases "thd_q mi")
       (auto simp add: mutex_impl_unlock_def Let_def current_def)
  have e: "cv_impl_wait v m c s = (case cvs s1 v of None \<Rightarrow> Undefined Dangling_pointer
       | Some q \<Rightarrow> run_next (Site_cv_wait m) c (s1\<lparr>cvs := (cvs s1)(v \<mapsto> q @ [current c s1])\<rparr>))"
    by (simp add: cv_impl_wait_def u then_do_def)
  show "cv_impl_wait v m c s \<noteq> Returned s'" "cv_impl_wait v m c s \<noteq> Threw x s'"
    by (simp_all add: e split: option.splits)
  assume sw: "cv_impl_wait v m c s = Switched s'" and q: "cvs s v = Some q"
  hence rn: "run_next (Site_cv_wait m) c (s1\<lparr>cvs := (cvs s1)(v \<mapsto> q @ [current c s1])\<rparr>) = Switched s'"
    using e f(1) by simp
  note fr = run_next_frame [OF rn]
  show "cvs s' v = Some (q @ [current c s])
       \<and> mutexes s' m = Some (case thd_q mi of [] \<Rightarrow> mi\<lparr>own_thd := None\<rparr>
                                | w # ws \<Rightarrow> \<lparr>own_thd = w, thd_q = ws\<rparr>)
       \<and> threads s' = saved_uc (Site_cv_wait m) (current c s) (threads s)
       \<and> guard s' = guard s"
    using fr(2,3,4,9) f by (simp add: current_def)
qed

lemma relock_effect:
  assumes m: "mutexes s m = Some mi" and cur: "current c s = Some t" and t: "threads s t = Some ti"
  shows "mutex_impl_lock (Site_cv_relock m) m c s = Returned s' \<Longrightarrow>
           mutexes s' m = Some (mi\<lparr>own_thd := Some t\<rparr>)"
    "mutex_impl_lock (Site_cv_relock m) m c s = Switched s' \<Longrightarrow>
           mutexes s' m = Some (mi\<lparr>thd_q := thd_q mi @ [Some t]\<rparr>)
           \<and> map_option uc (threads s' t) = Some (Saved (Site_cv_relock m))"
proof -
  assume "mutex_impl_lock (Site_cv_relock m) m c s = Returned s'"
  thus "mutexes s' m = Some (mi\<lparr>own_thd := Some t\<rparr>)"
    using m cur by (auto simp add: mutex_impl_lock_def split: if_splits)
next
  assume sw: "mutex_impl_lock (Site_cv_relock m) m c s = Switched s'"
  hence rn: "run_next (Site_cv_relock m) c
      (s\<lparr>mutexes := (mutexes s)(m \<mapsto> mi\<lparr>thd_q := thd_q mi @ [current c s]\<rparr>)\<rparr>) = Switched s'"
    using m by (auto simp add: mutex_impl_lock_def split: if_splits)
  note fr = run_next_frame [OF rn]
  show "mutexes s' m = Some (mi\<lparr>thd_q := thd_q mi @ [Some t]\<rparr>)
           \<and> map_option uc (threads s' t) = Some (Saved (Site_cv_relock m))"
    using fr(2,9) cur t by (simp add: current_def saved_uc_def)
qed

section \<open>The example states\<close>

lemma demo_exit: "thread_start_exit 0 demo_state = Some (Switched demo_exited)"
  by (simp add: thread_start_exit_def lock_free exit_body_def run_next_def switch_context_def
      current_def demo_exited_def demo_state_def boot_state_def Let_def fun_upd_twist)

lemma demo_join: "thread_join 11 0 demo_state = Some (Switched demo_joined)"
  by (simp add: thread_join_def lock_guard_free join_body_def run_next_def switch_context_def
      current_def demo_joined_def demo_state_def boot_state_def Let_def fun_upd_twist)

lemma demo_wait: "cv_wait 7 5 0 demo_state = Some (Switched demo_waiting)"
  by (simp add: cv_wait_def lock_guard_free cv_impl_wait_def mutex_impl_unlock_def then_do_def
      wakeup_one_cpu_def run_next_def switch_context_def
      current_def demo_waiting_def demo_state_def boot_state_def Let_def fun_upd_twist)

lemma demo_move: "thread_move_assign 10 11 0 demo_state = Some (Returned demo_moved)"
  by (simp add: thread_move_assign_def move_assign_body_def move_body_def lock_guard_free unlock_def
      demo_moved_def demo_state_def boot_state_def Let_def fun_upd_idem_iff fun_upd_twist)

lemma demo_resume: "resume 0 demo_exited = Returned demo_reclaimed"
proof -
  have "(\<lambda>c. True)(0 := False, 0 := True) = (\<lambda>c::cid. True)" by (rule ext) simp
  moreover have "[1::tid \<mapsto> \<lparr>parent = Some 10, uc = Saved Site_exit, join_thd = []\<rparr>,
                 2 \<mapsto> \<lparr>parent = Some 11, uc = Saved (Site_mutex_lock 5), join_thd = []\<rparr>,
                 3 \<mapsto> \<lparr>parent = None, uc = Saved Site_idle, join_thd = []\<rparr>,
                 4 \<mapsto> \<lparr>parent = None, uc = Saved Site_idle, join_thd = []\<rparr>](1 := None)
       = [2 \<mapsto> \<lparr>parent = Some 11, uc = Saved (Site_mutex_lock 5), join_thd = []\<rparr>,
          3 \<mapsto> \<lparr>parent = None, uc = Saved Site_idle, join_thd = []\<rparr>,
          4 \<mapsto> \<lparr>parent = None, uc = Saved Site_idle, join_thd = []\<rparr>]"
    by (rule ext) simp
  ultimately show ?thesis
    by (simp add: resume_def reclaim_def impl_dtor_def then_do_def after_run_next_def current_def
        demo_reclaimed_def demo_exited_def demo_state_def boot_state_def fun_upd_idem_iff
        fun_upd_twist)
qed

lemma config_ok_relock: "config_ok (Pending 0 demo_relock)"
proof -
  let ?loc = "\<lambda>t::tid. if t = 1 then P_cpu 0 else if t = 2 then P_mutex 5
                else if t = 3 then P_idle else P_cpu 1"
  have 1: "cnt (refs demo_relock) p t \<le> 1" for p t
    by (cases p) (simp_all add: demo_relock_def demo_state_def boot_state_def cnt_def)
  have 2: "p = ?loc t" if "0 < cnt (refs demo_relock) p t" for p t
    using that
    by (cases p) (simp_all add: demo_relock_def demo_state_def boot_state_def cnt_def split: if_splits)
  have 3: "threads demo_relock t \<noteq> None" if "0 < cnt (refs demo_relock) p t" for p t
    using that
    by (cases p) (simp_all add: demo_relock_def demo_state_def boot_state_def cnt_def split: if_splits)
  have "single_ref (refs demo_relock)" by (rule single_refI [where loc = ?loc]) (rule 1, rule 2)
  moreover have "all_live (refs demo_relock) (threads demo_relock)"
    unfolding all_live_def using 3 by blast
  moreover have "mutexes_ok demo_relock"
    by (simp add: mutexes_ok_def mutex_ok_def demo_relock_def demo_state_def boot_state_def)
  moreover have "parked1 demo_relock"
    by (simp add: parked1_def exited_def demo_relock_def demo_state_def boot_state_def)
  moreover have "waits (Some 0) demo_relock"
    by (auto simp add: waits_def lock_site_def demo_relock_def demo_state_def boot_state_def
        split: if_splits)
  moreover have "free_ok demo_relock"
    by (simp add: free_ok_def demo_relock_def demo_state_def boot_state_def)
  ultimately show ?thesis by (simp add: state_ok_def refs_ok_def)
qed

lemma join_waits_for_target_demo:
  "thread_join 11 0 demo_moved = Some (Returned demo_moved)
   \<and> thread_join 11 0 demo_state \<noteq> Some (Returned demo_state)
   \<and> map_option join_thd (threads demo_joined 2) = Some [Some 1]
   \<and> guard demo_joined
   \<and> (\<forall>c. current_thd demo_joined c \<noteq> Some 1)"
proof -
  have r: "trans\<^sup>*\<^sup>* (Running demo_state) (Running demo_state)" by simp
  have c: "current 0 demo_state = Some 1" "handles demo_state 11 = Some (Some 2)"
    "threads demo_state 2 = Some \<lparr>parent = Some 11, uc = Saved (Site_mutex_lock 5), join_thd = []\<rparr>"
    by (simp_all add: current_def demo_state_def boot_state_def)
  note th = join_waits_for_target [OF config_ok_demo r, THEN conjunct2, THEN conjunct1, rule_format]
  from th [where c = 0 and s = demo_state and h = 11 and t = 2 and w = 1
      and ti = "\<lparr>parent = Some 11, uc = Saved (Site_mutex_lock 5), join_thd = []\<rparr>"] c demo_join
  have a: "\<And>s'. thread_join 11 0 demo_state \<noteq> Some (Returned s')"
    "map_option join_thd (threads demo_joined 2) = Some [Some 1]" "guard demo_joined"
    by (simp_all del: fun_upd_apply)
  have "trans (Running demo_state) (Running demo_moved)"
    by (rule call_returned [of 0 "Thread_move_assign 10 11"]) (simp_all add: c demo_move)
  hence r1: "trans\<^sup>*\<^sup>* (Running demo_state) (Running demo_moved)" by (rule r_into_rtranclp)
  have c1: "\<not> guard demo_moved" "handles demo_moved 11 = Some None"
    "demo_moved\<lparr>interrupts := (interrupts demo_moved)(0 := True)\<rparr> = demo_moved"
    by (simp_all add: demo_moved_def demo_state_def boot_state_def fun_upd_idem_iff)
  note th1 = join_waits_for_target [OF config_ok_demo r1, THEN conjunct1, rule_format]
  from th1 [where c = 0 and s = demo_moved and h = 11] c1
  have b: "thread_join 11 0 demo_moved = Some (Returned demo_moved)" by simp
  have "trans (Running demo_state) (Pending 0 demo_joined)"
    by (rule call_switched [of 0 "Thread_join 11"]) (simp_all add: c demo_join)
  hence r2: "trans\<^sup>*\<^sup>* (Running demo_state) (Pending 0 demo_joined)" by (rule r_into_rtranclp)
  have c2: "waiting_on demo_joined 2 1"
    by (simp add: waiting_on_def demo_joined_def demo_state_def boot_state_def)
  note th2 = join_waits_for_target [OF config_ok_demo r2, THEN conjunct2, THEN conjunct2,
      THEN conjunct1, rule_format]
  from th2 [where t = 2 and w = 1] c2
  have d: "\<forall>c. current_thd demo_joined c \<noteq> Some 1" by (simp del: fun_upd_apply)
  from a b d show ?thesis by blast
qed

lemma demo_spawn: "thread_ctor 12 (Some (User_func 7)) 5 0 demo_moved = Some (Returned demo_spawned)"
  by (simp add: thread_ctor_def ctor_body_def impl_ctor_def then_do_def lock_guard_free unlock_def
      wakeup_one_cpu_def demo_spawned_def demo_moved_def demo_state_def boot_state_def Let_def
      fun_upd_idem_iff fun_upd_twist)

lemma demo_orphan_exit: "thread_start_exit 0 demo_spawned = Some (Switched demo_orphaning)"
  by (simp add: thread_start_exit_def lock_free exit_body_def run_next_def switch_context_def
      current_def demo_orphaning_def demo_spawned_def demo_moved_def demo_state_def boot_state_def
      Let_def fun_upd_twist)

lemma demo_orphan_resume: "resume 0 demo_orphaning = Returned demo_orphaned"
proof -
  have "(\<lambda>c. True)(0 := False, 0 := True) = (\<lambda>c::cid. True)" by (rule ext) simp
  moreover have "[1::tid \<mapsto> \<lparr>parent = Some 10, uc = Saved Site_exit, join_thd = []\<rparr>,
                 2 \<mapsto> \<lparr>parent = Some 10, uc = Saved (Site_mutex_lock 5), join_thd = []\<rparr>,
                 3 \<mapsto> \<lparr>parent = None, uc = Saved Site_idle, join_thd = []\<rparr>,
                 4 \<mapsto> \<lparr>parent = None, uc = Saved Site_idle, join_thd = []\<rparr>,
                 5 \<mapsto> \<lparr>parent = Some 12, uc = Entry (User_func 7), join_thd = []\<rparr>](1 := None)
       = [2 \<mapsto> \<lparr>parent = Some 10, uc = Saved (Site_mutex_lock 5), join_thd = []\<rparr>,
          3 \<mapsto> \<lparr>parent = None, uc = Saved Site_idle, join_thd = []\<rparr>,
          4 \<mapsto> \<lparr>parent = None, uc = Saved Site_idle, join_thd = []\<rparr>,
          5 \<mapsto> \<lparr>parent = Some 12, uc = Entry (User_func 7), join_thd = []\<rparr>]"
    by (rule ext) simp
  ultimately show ?thesis
    by (simp add: resume_def thread_start_entry_def reclaim_def impl_dtor_def then_do_def unlock_def
        current_def demo_orphaned_def demo_orphaning_def demo_spawned_def demo_moved_def
        demo_state_def boot_state_def fun_upd_idem_iff fun_upd_twist)
qed

lemma demo_orphan_join: "thread_join 10 0 demo_orphaned = Some (Returned demo_orphaned)"
  by (simp add: thread_join_def lock_guard_free join_body_def unlock_def
      demo_orphaned_def demo_orphaning_def demo_spawned_def demo_moved_def demo_state_def
      boot_state_def fun_upd_idem_iff)

lemma demo_orphaned_reachable: "trans\<^sup>*\<^sup>* (Running demo_state) (Running demo_orphaned)"
proof -
  have 1: "trans (Running demo_state) (Running demo_moved)"
  proof (rule call_returned [of 0 "Thread_move_assign 10 11"])
    show "allowed 0 (Thread_move_assign 10 11) demo_state"
      by (simp add: current_def demo_state_def boot_state_def)
    show "call 0 (Thread_move_assign 10 11) demo_state = Some (Returned demo_moved)"
      by (simp add: demo_move)
  qed
  have 2: "trans (Running demo_moved) (Running demo_spawned)"
  proof (rule call_returned [of 0 "Thread_ctor 12 (Some (User_func 7)) 5"])
    show "allowed 0 (Thread_ctor 12 (Some (User_func 7)) 5) demo_moved"
      by (simp add: demo_moved_def demo_state_def boot_state_def)
    show "call 0 (Thread_ctor 12 (Some (User_func 7)) 5) demo_moved = Some (Returned demo_spawned)"
      by (simp add: demo_spawn)
  qed
  have 3: "trans (Running demo_spawned) (Pending 0 demo_orphaning)"
  proof (rule call_switched [of 0 Thread_exit])
    show "allowed 0 Thread_exit demo_spawned"
      by (simp add: current_def demo_spawned_def demo_moved_def demo_state_def boot_state_def)
    show "call 0 Thread_exit demo_spawned = Some (Switched demo_orphaning)"
      by (simp add: demo_orphan_exit)
  qed
  have 4: "trans (Pending 0 demo_orphaning) (Running demo_orphaned)"
    by (rule resume_returned) (rule demo_orphan_resume)
  from 1 2 3 4 show ?thesis by (meson rtranclp.rtrancl_into_rtrancl rtranclp.rtrancl_refl)
qed

section \<open>The claims\<close>

text \<open>
  C1. When \<open>mutex::unlock\<close> is called by the owner of the mutex and the wait queue of the
  mutex is not empty, the head waiter becomes the owner, leaves the wait queue and is
  appended to the ready queue, and \<open>wakeup_one_cpu\<close> runs once: if a CPU is suspended, the
  first one is sent an IPI and leaves \<open>suspended_queue\<close>. The guard is free afterwards.
  The new owner is a thread, not null, and in every configuration that an execution
  reaches from the state after the call, the mutex has an owner or its wait queue is empty.
\<close>

theorem mutex_unlock_handoff:
  assumes "\<not> guard s" and "mutexes s m = Some mi" and "own_thd mi = current c s"
    and "thd_q mi = w # ws" and "mutexes_ok s"
  shows "\<exists>s'. mutex_unlock m c s = Some (Returned s')
           \<and> mutexes s' = (mutexes s)(m \<mapsto> \<lparr>own_thd = w, thd_q = ws\<rparr>)
           \<and> w \<noteq> None
           \<and> ready_queue s' = ready_queue s @ [w]
           \<and> (case suspended_queue s of
                 [] \<Rightarrow> suspended_queue s' = [] \<and> ipi_sent s' = ipi_sent s
               | c0 # cs \<Rightarrow> suspended_queue s' = cs \<and> ipi_sent s' = ipi_sent s @ [c0])
           \<and> \<not> guard s'
           \<and> (\<forall>cf. trans\<^sup>*\<^sup>* (Running s') cf \<longrightarrow>
                 (\<forall>mi'. mutexes (state_of cf) m = Some mi' \<longrightarrow>
                    own_thd mi' \<noteq> None \<or> thd_q mi' = []))"
proof -
  from assms(1-4) obtain s' where s': "mutex_unlock m c s = Some (Returned s')"
    "mutexes s' = (mutexes s)(m \<mapsto> \<lparr>own_thd = w, thd_q = ws\<rparr>)"
    "ready_queue s' = ready_queue s @ [w]"
    "case suspended_queue s of
       [] \<Rightarrow> suspended_queue s' = [] \<and> ipi_sent s' = ipi_sent s
     | c0 # cs \<Rightarrow> suspended_queue s' = cs \<and> ipi_sent s' = ipi_sent s @ [c0]"
    "\<not> guard s'"
    by (cases mi)
       (auto simp add: mutex_unlock_def lock_guard_free mutex_impl_unlock_def current_def unlock_def
        wakeup_one_cpu_def split: list.splits)
  have mi: "mutex_ok mi" using assms(2,5) by (simp add: mutexes_ok_def)
  hence "None \<notin> set (w # ws)" using assms(4) by (simp add: mutex_ok_def)
  hence w: "w \<noteq> None" and ws: "None \<notin> set ws" by (cases w, simp_all)+
  have "mutex_ok \<lparr>own_thd = w, thd_q = ws\<rparr>" using w ws by (auto simp add: mutex_ok_def)
  hence ok': "mutexes_ok s'" by (rule mutexes_ok_upd [OF assms(5) _ s'(2)])
  have "\<forall>cf. trans\<^sup>*\<^sup>* (Running s') cf \<longrightarrow>
          (\<forall>mi'. mutexes (state_of cf) m = Some mi' \<longrightarrow> own_thd mi' \<noteq> None \<or> thd_q mi' = [])"
  proof (intro allI impI)
    fix cf mi' assume "trans\<^sup>*\<^sup>* (Running s') cf" and m': "mutexes (state_of cf) m = Some mi'"
    hence "mutexes_ok (state_of cf)" using reach_mutexes_ok [of "Running s'" cf] ok' by simp
    with m' show "own_thd mi' \<noteq> None \<or> thd_q mi' = []"
      by (auto simp add: mutexes_ok_def mutex_ok_def)
  qed
  with s' w show ?thesis by blast
qed

theorem mutex_unlock_handoff_witness:
  "\<exists>s'. mutex_unlock 5 0 demo_state = Some (Returned s')
     \<and> mutexes s' 5 = Some \<lparr>own_thd = Some 2, thd_q = []\<rparr>
     \<and> ready_queue s' = [Some 2] \<and> suspended_queue s' = [] \<and> ipi_sent s' = [1]"
proof -
  have "mutexes_ok demo_state" using config_ok_demo by simp
  from mutex_unlock_handoff [of demo_state 5 "\<lparr>own_thd = Some 1, thd_q = [Some 2]\<rparr>" 0 "Some 2" "[]",
      OF _ _ _ _ this]
  show ?thesis by (auto simp add: demo_state_def boot_state_def current_def)
qed

text \<open>
  C2. \<open>mutex::unlock\<close> called by a thread that is not the owner of the mutex, also when
  the mutex is unlocked, throws \<open>std::runtime_error("release not-own")\<close>. The state after
  the throw is the state before the call with the interrupts of the calling CPU enabled
  by the destructor of the \<open>lock_guard\<close>: the mutex, every queue and the guard are as
  before, and the whole state is when the interrupts were enabled at the call.
\<close>

theorem mutex_unlock_not_owner:
  assumes "\<not> guard s" and "mutexes s m = Some mi" and "own_thd mi \<noteq> current c s"
  shows "mutex_unlock m c s =
           Some (Threw (Runtime_error ''release not-own'')
                   (s\<lparr>interrupts := (interrupts s)(c := True)\<rparr>))
         \<and> (interrupts s c \<longrightarrow>
              mutex_unlock m c s = Some (Threw (Runtime_error ''release not-own'') s))"
  using assms
  by (simp add: mutex_unlock_def lock_guard_free mutex_impl_unlock_def current_def unlock_def
      fun_upd_idem)

theorem mutex_unlock_not_owner_witness:
  "mutex_unlock 6 0 demo_state = Some (Threw (Runtime_error ''release not-own'') demo_state)"
  using mutex_unlock_not_owner [of demo_state 6 "\<lparr>own_thd = None, thd_q = []\<rparr>" 0]
  by (simp add: demo_state_def boot_state_def current_def fun_upd_idem_iff)

text \<open>
  C3. \<open>run_next\<close> called while the ready queue or the idle queue is not empty, the head
  of the queue it reads being a live thread and \<open>current_thd\<close> not dangling: the next
  thread is the head of the ready queue when that queue is not empty and the head of the
  idle queue otherwise; it is removed from its queue and becomes \<open>current_thd\<close> of the
  calling CPU; when the previous \<open>current_thd\<close> is null the switch is \<open>setcontext\<close> and
  no context is saved, otherwise it is \<open>swapcontext\<close> from the previous thread, whose
  context is saved, to the next one.
\<close>

theorem run_next_picks:
  assumes "ready_queue s \<noteq> [] \<or> idle_queue s \<noteq> []"
    and "(if ready_queue s \<noteq> [] then hd (ready_queue s) else hd (idle_queue s)) = Some n"
    and "threads s n = Some ni"
    and "\<forall>ot. current c s = Some ot \<longrightarrow> threads s ot \<noteq> None"
  shows "\<exists>s'. run_next site c s = Switched s'
           \<and> current_thd s' = (current_thd s)(c := Some n)
           \<and> (if ready_queue s \<noteq> []
               then ready_queue s' = tl (ready_queue s) \<and> idle_queue s' = idle_queue s
               else ready_queue s' = [] \<and> idle_queue s' = tl (idle_queue s))
           \<and> (case current c s of
                 None \<Rightarrow> switches s' = switches s @ [Setcontext n] \<and> threads s' = threads s
               | Some ot \<Rightarrow> switches s' = switches s @ [Swapcontext ot n]
                   \<and> (\<forall>oi. threads s ot = Some oi \<longrightarrow>
                         threads s' = (threads s)(ot \<mapsto> oi\<lparr>uc := Saved site\<rparr>)))"
proof (cases "ready_queue s = []")
  case True
  with assms show ?thesis
    by (cases "current_thd s c")
       (auto simp add: run_next_def switch_context_def current_def Let_def)
next
  case False
  with assms show ?thesis
    by (cases "current_thd s c")
       (auto simp add: run_next_def switch_context_def current_def Let_def)
qed

theorem run_next_picks_witness:
  "\<exists>s'. run_next Site_yield 0 demo_state = Switched s'
     \<and> current_thd s' 0 = Some 3 \<and> ready_queue s' = [] \<and> idle_queue s' = []
     \<and> switches s' = [Swapcontext 1 3]"
  using run_next_picks [of demo_state 3 "\<lparr>parent = None, uc = Saved Site_idle, join_thd = []\<rparr>" 0 Site_yield]
  by (auto simp add: demo_state_def boot_state_def current_def)

text \<open>
  C4. In every configuration that an execution reaches from a configuration satisfying the
  invariant:
  \<^item> \<open>cv::wait\<close> called by the owner of the mutex does not return before a switch; when it
    has switched, the caller is at the end of the wait queue of the condition variable, the
    mutex is unlocked or handed to its head waiter, the context of the caller is saved at
    the \<open>run_next\<close> of \<open>cv::impl::wait\<close>, the guard is held and the caller no longer runs
    on the CPU;
  \<^item> when the caller is resumed at that \<open>run_next\<close>: if it returns from \<open>cv::wait\<close>, the
    mutex was free and the caller now owns it, and the guard is released; if it switches
    again, the mutex had an owner and the caller is at the end of the wait queue of the
    mutex, its context saved at the \<open>run_next\<close> of \<open>mtx->lock()\<close>;
  \<^item> when the caller is resumed at the \<open>run_next\<close> of \<open>mtx->lock()\<close>, it owns the mutex; it
    does not switch again, and it returns from \<open>cv::wait\<close> with the mutexes unchanged and
    the guard released;
  \<^item> \<open>cv::wait\<close> called by the owner with the guard free does switch, provided a thread is
    there to switch to: the ready queue, with the head waiter of the mutex appended, or else
    the idle queue is not empty and its head is not null;
  \<^item> the caller resumed at the \<open>run_next\<close> of \<open>cv::impl::wait\<close> does return when the mutex
    is free, and does switch when the mutex has an owner and a thread is there to switch to;
  \<^item> the caller resumed at the \<open>run_next\<close> of \<open>mtx->lock()\<close> does return.
\<close>

theorem cv_wait_relocks:
  assumes "config_ok cf0" and "trans\<^sup>*\<^sup>* cf0 cf"
  shows "(\<forall>c s v m t mi q s'. cf = Running s \<and> current c s = Some t \<and> mutexes s m = Some mi
            \<and> own_thd mi = Some t \<and> cvs s v = Some q \<longrightarrow>
            cv_wait v m c s \<noteq> Some (Returned s')
            \<and> (cv_wait v m c s = Some (Switched s') \<longrightarrow>
                 cvs s' v = Some (q @ [Some t])
                 \<and> mutexes s' m = Some (case thd_q mi of [] \<Rightarrow> mi\<lparr>own_thd := None\<rparr>
                                          | w # ws \<Rightarrow> \<lparr>own_thd = w, thd_q = ws\<rparr>)
                 \<and> map_option uc (threads s' t) = Some (Saved (Site_cv_wait m))
                 \<and> guard s' \<and> current_thd s' c \<noteq> Some t))
       \<and> (\<forall>c s t ti m mi s'. cf = Pending c s \<and> current c s = Some t \<and> threads s t = Some ti
            \<and> uc ti = Saved (Site_cv_wait m) \<and> mutexes s m = Some mi \<longrightarrow>
            (resume c s = Returned s' \<longrightarrow>
               own_thd mi = None \<and> mutexes s' m = Some (mi\<lparr>own_thd := Some t\<rparr>) \<and> \<not> guard s')
            \<and> (resume c s = Switched s' \<longrightarrow>
               own_thd mi \<noteq> None \<and> mutexes s' m = Some (mi\<lparr>thd_q := thd_q mi @ [Some t]\<rparr>)
               \<and> map_option uc (threads s' t) = Some (Saved (Site_cv_relock m))
               \<and> current_thd s' c \<noteq> Some t))
       \<and> (\<forall>c s t ti m mi s'. cf = Pending c s \<and> current c s = Some t \<and> threads s t = Some ti
            \<and> uc ti = Saved (Site_cv_relock m) \<and> mutexes s m = Some mi \<longrightarrow>
            own_thd mi = Some t
            \<and> resume c s \<noteq> Switched s'
            \<and> (resume c s = Returned s' \<longrightarrow> mutexes s' = mutexes s \<and> \<not> guard s'))
       \<and> (\<forall>c s v m t mi q. cf = Running s \<and> \<not> guard s \<and> current c s = Some t
            \<and> mutexes s m = Some mi \<and> own_thd mi = Some t \<and> cvs s v = Some q
            \<and> (ready_queue s @ take 1 (thd_q mi) \<noteq> [] \<or> idle_queue s \<noteq> [])
            \<and> (if ready_queue s @ take 1 (thd_q mi) \<noteq> []
                then hd (ready_queue s @ take 1 (thd_q mi)) else hd (idle_queue s)) \<noteq> None \<longrightarrow>
            (\<exists>s'. cv_wait v m c s = Some (Switched s')))
       \<and> (\<forall>c s t ti m mi. cf = Pending c s \<and> current c s = Some t \<and> threads s t = Some ti
            \<and> uc ti = Saved (Site_cv_wait m) \<and> mutexes s m = Some mi \<longrightarrow>
            (own_thd mi = None \<longrightarrow> (\<exists>s'. resume c s = Returned s'))
            \<and> (own_thd mi \<noteq> None \<and> (ready_queue s \<noteq> [] \<or> idle_queue s \<noteq> [])
               \<and> (if ready_queue s \<noteq> [] then hd (ready_queue s) else hd (idle_queue s)) \<noteq> None \<longrightarrow>
               (\<exists>s'. resume c s = Switched s')))
       \<and> (\<forall>c s t ti m. cf = Pending c s \<and> current c s = Some t \<and> threads s t = Some ti
            \<and> uc ti = Saved (Site_cv_relock m) \<longrightarrow>
            (\<exists>s'. resume c s = Returned s'))"
proof -
  have ok: "config_ok cf" by (rule reach_config_ok [OF assms(2,1)])
  have sok: "state_ok (state_of cf)" using ok by (cases cf) simp_all
  have 1: "\<forall>c s v m t mi q s'. cf = Running s \<and> current c s = Some t \<and> mutexes s m = Some mi
            \<and> own_thd mi = Some t \<and> cvs s v = Some q \<longrightarrow>
            cv_wait v m c s \<noteq> Some (Returned s')
            \<and> (cv_wait v m c s = Some (Switched s') \<longrightarrow>
                 cvs s' v = Some (q @ [Some t])
                 \<and> mutexes s' m = Some (case thd_q mi of [] \<Rightarrow> mi\<lparr>own_thd := None\<rparr>
                                          | w # ws \<Rightarrow> \<lparr>own_thd = w, thd_q = ws\<rparr>)
                 \<and> map_option uc (threads s' t) = Some (Saved (Site_cv_wait m))
                 \<and> guard s' \<and> current_thd s' c \<noteq> Some t)"
  proof (intro allI impI, elim conjE)
    fix c s v m t mi q s'
    assume cf: "cf = Running s" and cur: "current c s = Some t" and m: "mutexes s m = Some mi"
      and own: "own_thd mi = Some t" and q: "cvs s v = Some q"
    have l: "mutexes (locked c s) m = Some mi" "own_thd mi = current c (locked c s)"
      "cvs (locked c s) v = Some q" "current c (locked c s) = Some t"
      using cur m own q by (simp_all add: locked_def current_def)
    note w = cv_impl_wait_owner [OF l(1,2), of v]
    have live: "threads s t \<noteq> None"
      using current_live(1) [of s c t] sok cf cur by (simp add: current_def)
    have a: "cv_wait v m c s \<noteq> Some (Returned s')"
    proof
      assume "cv_wait v m c s = Some (Returned s')"
      from call_cases [of c "Cv_wait v m" s, simplified, OF this] w(1,2) show False
        by (auto split: outcome.splits)
    qed
    have b: "cvs s' v = Some (q @ [Some t])
                 \<and> mutexes s' m = Some (case thd_q mi of [] \<Rightarrow> mi\<lparr>own_thd := None\<rparr>
                                          | w # ws \<Rightarrow> \<lparr>own_thd = w, thd_q = ws\<rparr>)
                 \<and> map_option uc (threads s' t) = Some (Saved (Site_cv_wait m))
                 \<and> guard s' \<and> current_thd s' c \<noteq> Some t"
      if sw: "cv_wait v m c s = Some (Switched s')"
    proof -
      from call_cases [of c "Cv_wait v m" s, simplified, OF sw]
      have "cv_impl_wait v m c (locked c s) = Switched s'" by (auto split: outcome.splits)
      from w(3) [OF this l(3)] l(4)
      have e: "cvs s' v = Some (q @ [Some t])"
        "mutexes s' m = Some (case thd_q mi of [] \<Rightarrow> mi\<lparr>own_thd := None\<rparr>
                                          | w # ws \<Rightarrow> \<lparr>own_thd = w, thd_q = ws\<rparr>)"
        "threads s' = saved_uc (Site_cv_wait m) (Some t) (threads (locked c s))" "guard s'"
        by (simp_all add: locked_def)
      have u: "map_option uc (threads s' t) = Some (Saved (Site_cv_wait m))"
        using e(3) live by (auto simp add: saved_uc_def locked_def)
      have "trans (Running s) (Pending c s')"
        by (rule call_switched [of c "Cv_wait v m"]) (use cur sw in simp_all)
      hence "config_ok (Pending c s')" using ok cf trans_config_ok by blast
      hence sok': "state_ok s'" by simp
      have "current_thd s' c \<noteq> Some t"
        using current_live(5) [OF sok', of c t v] e(1) by auto
      thus ?thesis using e u by simp
    qed
    from a b show "cv_wait v m c s \<noteq> Some (Returned s')
            \<and> (cv_wait v m c s = Some (Switched s') \<longrightarrow>
                 cvs s' v = Some (q @ [Some t])
                 \<and> mutexes s' m = Some (case thd_q mi of [] \<Rightarrow> mi\<lparr>own_thd := None\<rparr>
                                          | w # ws \<Rightarrow> \<lparr>own_thd = w, thd_q = ws\<rparr>)
                 \<and> map_option uc (threads s' t) = Some (Saved (Site_cv_wait m))
                 \<and> guard s' \<and> current_thd s' c \<noteq> Some t)" by blast
  qed
  have pend: "\<exists>s1. reclaim s = Returned s1 \<and> resume c s = after_run_next site c s1
        \<and> mutexes s1 = mutexes s \<and> current c s1 = Some t \<and> threads s1 t = Some ti"
    if cf: "cf = Pending c s" and cur: "current c s = Some t" and t: "threads s t = Some ti"
      and u: "uc ti = Saved site" and r: "result (resume c s) = Some s'" for c s t ti site s'
  proof -
    from r obtain n ni s1 where n: "current c s = Some n" "threads s n = Some ni"
      and s1: "reclaim s = Returned s1"
      and k: "case uc ni of Entry fn \<Rightarrow> resume c s = Returned s' \<and> s' = unlock c s1
         | Saved site \<Rightarrow> resume c s = after_run_next site c s1"
      by (rule resume_cases)
    have rr: "result (reclaim s) = Some s1" using s1 by simp
    note f = reclaim_result [OF rr]
    have "last_free_thread s \<noteq> Some t"
      using current_live(2) [of s c t] sok cf cur by (simp add: current_def)
    hence "threads s1 t = Some ti" using f(9) t by (auto split: option.splits)
    thus ?thesis using n k cur t u s1 f(1,3) by (auto simp add: current_def)
  qed
  have 2: "\<forall>c s t ti m mi s'. cf = Pending c s \<and> current c s = Some t \<and> threads s t = Some ti
            \<and> uc ti = Saved (Site_cv_wait m) \<and> mutexes s m = Some mi \<longrightarrow>
            (resume c s = Returned s' \<longrightarrow>
               own_thd mi = None \<and> mutexes s' m = Some (mi\<lparr>own_thd := Some t\<rparr>) \<and> \<not> guard s')
            \<and> (resume c s = Switched s' \<longrightarrow>
               own_thd mi \<noteq> None \<and> mutexes s' m = Some (mi\<lparr>thd_q := thd_q mi @ [Some t]\<rparr>)
               \<and> map_option uc (threads s' t) = Some (Saved (Site_cv_relock m))
               \<and> current_thd s' c \<noteq> Some t)"
  proof (intro allI impI conjI; elim conjE)
    fix c s t ti m mi s'
    assume cf: "cf = Pending c s" and cur: "current c s = Some t" and t: "threads s t = Some ti"
      and u: "uc ti = Saved (Site_cv_wait m)" and m: "mutexes s m = Some mi"
      and r: "resume c s = Returned s'"
    from pend [OF cf cur t u, of s'] r obtain s1 where
      s1: "resume c s = after_run_next (Site_cv_wait m) c s1" "mutexes s1 = mutexes s"
        "current c s1 = Some t" "threads s1 t = Some ti"
      by auto
    from r s1(1) obtain s2 where l: "mutex_impl_lock (Site_cv_relock m) m c s1 = Returned s2"
      "s' = unlock c s2"
      by (cases "mutex_impl_lock (Site_cv_relock m) m c s1")
         (auto simp add: after_run_next_def then_do_def)
    have m1: "mutexes s1 m = Some mi" using m s1(2) by simp
    have "own_thd mi = None"
      using l(1) m1 by (auto simp add: mutex_impl_lock_def split: if_splits)
    moreover note relock_effect(1) [OF m1 s1(3,4) l(1)]
    ultimately show "own_thd mi = None" "mutexes s' m = Some (mi\<lparr>own_thd := Some t\<rparr>)" "\<not> guard s'"
      using l(2) by (simp_all add: unlock_def)
  next
    fix c s t ti m mi s'
    assume cf: "cf = Pending c s" and cur: "current c s = Some t" and t: "threads s t = Some ti"
      and u: "uc ti = Saved (Site_cv_wait m)" and m: "mutexes s m = Some mi"
      and r: "resume c s = Switched s'"
    from pend [OF cf cur t u, of s'] r obtain s1 where
      s1: "resume c s = after_run_next (Site_cv_wait m) c s1" "mutexes s1 = mutexes s"
        "current c s1 = Some t" "threads s1 t = Some ti"
      by auto
    from r s1(1) have l: "mutex_impl_lock (Site_cv_relock m) m c s1 = Switched s'"
      by (cases "mutex_impl_lock (Site_cv_relock m) m c s1")
         (auto simp add: after_run_next_def then_do_def)
    have m1: "mutexes s1 m = Some mi" using m s1(2) by simp
    have o: "own_thd mi \<noteq> None"
      using l m1 by (auto simp add: mutex_impl_lock_def split: if_splits)
    note e = relock_effect(2) [OF m1 s1(3,4) l]
    have "trans (Pending c s) (Pending c s')" using r by (rule resume_switched)
    hence "config_ok (Pending c s')" using ok cf trans_config_ok by blast
    hence sok': "state_ok s'" by simp
    have "current_thd s' c \<noteq> Some t"
      using current_live(4) [OF sok', of c t m] e by auto
    thus "own_thd mi \<noteq> None" "mutexes s' m = Some (mi\<lparr>thd_q := thd_q mi @ [Some t]\<rparr>)"
      "map_option uc (threads s' t) = Some (Saved (Site_cv_relock m))"
      "current_thd s' c \<noteq> Some t"
      using o e by simp_all
  qed
  have 3: "\<forall>c s t ti m mi s'. cf = Pending c s \<and> current c s = Some t \<and> threads s t = Some ti
            \<and> uc ti = Saved (Site_cv_relock m) \<and> mutexes s m = Some mi \<longrightarrow>
            own_thd mi = Some t
            \<and> resume c s \<noteq> Switched s'
            \<and> (resume c s = Returned s' \<longrightarrow> mutexes s' = mutexes s \<and> \<not> guard s')"
  proof (intro allI impI, elim conjE)
    fix c s t ti m mi s'
    assume cf: "cf = Pending c s" and cur: "current c s = Some t" and t: "threads s t = Some ti"
      and u: "uc ti = Saved (Site_cv_relock m)" and m: "mutexes s m = Some mi"
    have cur': "current_thd s c = Some t" using cur by (simp add: current_def)
    have soks: "state_ok s" using sok cf by simp
    have w: "waits (Some c) s" using ok cf by simp
    have "\<forall>c'. current_thd s c' = Some t \<longrightarrow> Some c = Some c'"
      using current_live(3) [OF soks cur'] by auto
    hence "Some t \<in> set (thd_q mi) \<or> own_thd mi = Some t"
      using w t u m unfolding waits_def lock_site_def by blast
    hence own: "own_thd mi = Some t" using current_live(4) [OF soks cur' m] by simp
    have a: "resume c s \<noteq> Switched s'"
    proof
      assume r: "resume c s = Switched s'"
      from pend [OF cf cur t u, of s'] r show False by (auto simp add: after_run_next_def)
    qed
    have b: "mutexes s' = mutexes s \<and> \<not> guard s'" if r: "resume c s = Returned s'"
      using pend [OF cf cur t u, of s'] r by (auto simp add: after_run_next_def unlock_def)
    from own a b show "own_thd mi = Some t
            \<and> resume c s \<noteq> Switched s'
            \<and> (resume c s = Returned s' \<longrightarrow> mutexes s' = mutexes s \<and> \<not> guard s')" by blast
  qed
  have 4: "(\<forall>c s v m t mi q. cf = Running s \<and> \<not> guard s \<and> current c s = Some t
        \<and> mutexes s m = Some mi \<and> own_thd mi = Some t \<and> cvs s v = Some q
        \<and> (ready_queue s @ take 1 (thd_q mi) \<noteq> [] \<or> idle_queue s \<noteq> [])
        \<and> (if ready_queue s @ take 1 (thd_q mi) \<noteq> []
            then hd (ready_queue s @ take 1 (thd_q mi)) else hd (idle_queue s)) \<noteq> None \<longrightarrow>
        (\<exists>s'. cv_wait v m c s = Some (Switched s')))"
  proof (intro allI impI, elim conjE)
    fix c s v m t mi q
    assume cf: "cf = Running s" and g: "\<not> guard s" and cur: "current c s = Some t"
      and m: "mutexes s m = Some mi" and own: "own_thd mi = Some t" and q: "cvs s v = Some q"
      and ne: "ready_queue s @ take 1 (thd_q mi) \<noteq> [] \<or> idle_queue s \<noteq> []"
      and hd: "(if ready_queue s @ take 1 (thd_q mi) \<noteq> []
                then hd (ready_queue s @ take 1 (thd_q mi)) else hd (idle_queue s)) \<noteq> None"
    from hd obtain n where
      n: "(if ready_queue s @ take 1 (thd_q mi) \<noteq> []
                then hd (ready_queue s @ take 1 (thd_q mi)) else hd (idle_queue s)) = Some n"
      by blast
    have "state_ok (locked c s)" using sok cf by simp
    hence "\<exists>s'. cv_impl_wait v m c (locked c s) = Switched s'"
      by (rule cv_impl_wait_defined [where mi = mi and q = q and n = n])
         (use cur m own q ne n in \<open>auto simp add: locked_def current_def split: if_splits\<close>)
    thus "\<exists>s'. cv_wait v m c s = Some (Switched s')"
      using g by (auto simp add: cv_wait_def lock_guard_switched)
  qed
  have 5: "(\<forall>c s t ti m mi. cf = Pending c s \<and> current c s = Some t \<and> threads s t = Some ti
        \<and> uc ti = Saved (Site_cv_wait m) \<and> mutexes s m = Some mi \<longrightarrow>
        (own_thd mi = None \<longrightarrow> (\<exists>s'. resume c s = Returned s'))
        \<and> (own_thd mi \<noteq> None \<and> (ready_queue s \<noteq> [] \<or> idle_queue s \<noteq> [])
           \<and> (if ready_queue s \<noteq> [] then hd (ready_queue s) else hd (idle_queue s)) \<noteq> None \<longrightarrow>
           (\<exists>s'. resume c s = Switched s')))"
  proof (intro allI impI conjI, goal_cases)
    case (1 c s t ti m mi)
    hence okp: "config_ok (Pending c s)" using ok by simp
    from 1 show ?case using resume_defined(4) [OF okp, of t ti m mi] by blast
  next
    case (2 c s t ti m mi)
    hence okp: "config_ok (Pending c s)" using ok by simp
    from 2 obtain n where
      n: "(if ready_queue s \<noteq> [] then hd (ready_queue s) else hd (idle_queue s)) = Some n"
      by blast
    from 2 n show ?case using resume_defined(5) [OF okp, of t ti m mi n] by blast
  qed
  have 6: "(\<forall>c s t ti m. cf = Pending c s \<and> current c s = Some t \<and> threads s t = Some ti
        \<and> uc ti = Saved (Site_cv_relock m) \<longrightarrow>
        (\<exists>s'. resume c s = Returned s'))"
  proof (intro allI impI, elim conjE)
    fix c s t ti m
    assume cf: "cf = Pending c s" and cur: "current c s = Some t" and t: "threads s t = Some ti"
      and u: "uc ti = Saved (Site_cv_relock m)"
    have okp: "config_ok (Pending c s)" using ok cf by simp
    show "\<exists>s'. resume c s = Returned s'"
      by (rule resume_defined(3) [OF okp cur t]) (simp add: u)
  qed
  from 1 2 3 4 5 6 show ?thesis by blast
qed

theorem cv_wait_relocks_witness:
  "cv_wait 7 5 0 demo_state \<noteq> Some (Returned demo_state)
   \<and> cvs demo_waiting 7 = Some [Some 1]
   \<and> mutexes demo_waiting 5 = Some \<lparr>own_thd = Some 2, thd_q = []\<rparr>
   \<and> map_option uc (threads demo_waiting 1) = Some (Saved (Site_cv_wait 5))
   \<and> current_thd demo_waiting 0 \<noteq> Some 1
   \<and> map_option own_thd (mutexes demo_relock 5) = Some (Some 1)"
proof -
  have r: "trans\<^sup>*\<^sup>* (Running demo_state) (Running demo_state)" by simp
  have c: "current 0 demo_state = Some 1"
    "mutexes demo_state 5 = Some \<lparr>own_thd = Some 1, thd_q = [Some 2]\<rparr>"
    "cvs demo_state 7 = Some []"
    by (simp_all add: current_def demo_state_def boot_state_def)
  note th = cv_wait_relocks [OF config_ok_demo r, THEN conjunct1, rule_format]
  from th [where c = 0 and s = demo_state and t = 1 and m = 5 and v = 7 and q = "[]"
      and mi = "\<lparr>own_thd = Some 1, thd_q = [Some 2]\<rparr>"] c demo_wait
  have a: "\<And>s'. cv_wait 7 5 0 demo_state \<noteq> Some (Returned s')"
    "cvs demo_waiting 7 = Some [Some 1]"
    "mutexes demo_waiting 5 = Some \<lparr>own_thd = Some 2, thd_q = []\<rparr>"
    "map_option uc (threads demo_waiting 1) = Some (Saved (Site_cv_wait 5))"
    "current_thd demo_waiting 0 \<noteq> Some 1"
    by (simp_all del: fun_upd_apply)
  have r2: "trans\<^sup>*\<^sup>* (Pending 0 demo_relock) (Pending 0 demo_relock)" by simp
  have c2: "current 0 demo_relock = Some 1"
    "threads demo_relock 1 = Some \<lparr>parent = Some 10, uc = Saved (Site_cv_relock 5), join_thd = []\<rparr>"
    "mutexes demo_relock 5 = Some \<lparr>own_thd = Some 1, thd_q = [Some 2]\<rparr>"
    by (simp_all add: current_def demo_relock_def demo_state_def boot_state_def)
  note th2 = cv_wait_relocks [OF config_ok_relock r2, THEN conjunct2, THEN conjunct2,
      THEN conjunct1, rule_format]
  from th2 [where c = 0 and s = demo_relock and t = 1 and m = 5
      and mi = "\<lparr>own_thd = Some 1, thd_q = [Some 2]\<rparr>"
      and ti = "\<lparr>parent = Some 10, uc = Saved (Site_cv_relock 5), join_thd = []\<rparr>"] c2
  have b: "map_option own_thd (mutexes demo_relock 5) = Some (Some 1)"
    by (simp del: fun_upd_apply)
  from a b show ?thesis by blast
qed

text \<open>
  C5, the code at the failing input. In \<open>demo_state\<close> handle 10 owns thread 1, handle 11
  owns thread 2 and thread 1 runs on CPU 0. Thread 1 executes
  \<open>handle10 = std::move(handle11)\<close>, after which handle 10 points at thread 2, constructs
  handle 12 with a user function, which creates thread 5, and returns from its user
  function. The exit part of \<open>thread_start\<close> writes null to handle 10 through the \<open>parent\<close>
  back-link that \<open>thread::operator=\<close> left in thread 1, and CPU 0 switches to thread 5.
  Then the pointer of handle 10 is null while thread 2 exists, has \<open>parent\<close> handle 10 and
  is blocked in \<open>mutex::lock\<close> inside its user function; and \<open>join\<close> on handle 10, called
  by thread 5, returns at once with the state unchanged.
\<close>

theorem join_returns_before_target_exits:
  "thread_move_assign 10 11 0 demo_state = Some (Returned demo_moved)
   \<and> thread_ctor 12 (Some (User_func 7)) 5 0 demo_moved = Some (Returned demo_spawned)
   \<and> thread_start_exit 0 demo_spawned = Some (Switched demo_orphaning)
   \<and> resume 0 demo_orphaning = Returned demo_orphaned
   \<and> handles demo_moved 10 = Some (Some 2)
   \<and> handles demo_orphaned 10 = Some None
   \<and> threads demo_orphaned 2
        = Some \<lparr>parent = Some 10, uc = Saved (Site_mutex_lock 5), join_thd = []\<rparr>
   \<and> current 0 demo_orphaned = Some 5
   \<and> thread_join 10 0 demo_orphaned = Some (Returned demo_orphaned)"
proof -
  have "handles demo_moved 10 = Some (Some 2)"
    by (simp add: demo_moved_def demo_state_def boot_state_def)
  moreover have "handles demo_orphaned 10 = Some None"
    "threads demo_orphaned 2
        = Some \<lparr>parent = Some 10, uc = Saved (Site_mutex_lock 5), join_thd = []\<rparr>"
    "current 0 demo_orphaned = Some 5"
    by (simp_all add: current_def demo_orphaned_def demo_orphaning_def demo_spawned_def
        demo_moved_def demo_state_def boot_state_def)
  ultimately show ?thesis
    using demo_move demo_spawn demo_orphan_exit demo_orphan_resume demo_orphan_join by simp
qed

text \<open>
  C6, the code at the failing input. In \<open>demo_state\<close> handle 10 owns thread 1 and handle
  11 owns thread 2. After \<open>handle10 = std::move(handle11)\<close> handle 10 points at thread 2
  and the back-link of thread 2 at handle 10, but the back-link of thread 1 still points
  at handle 10: \<open>thread::operator=\<close> does not touch the thread that the destination
  owned. When thread 1 then exits it writes null to handle 10, which owns the live
  thread 2.
\<close>

theorem move_assign_stale_backlink:
  "thread_move_assign 10 11 0 demo_state = Some (Returned demo_moved)
   \<and> handles demo_moved 10 = Some (Some 2)
   \<and> handles demo_moved 11 = Some None
   \<and> map_option parent (threads demo_moved 2) = Some (Some 10)
   \<and> map_option parent (threads demo_moved 1) = Some (Some 10)
   \<and> map_option (\<lambda>r. case r of Switched s' \<Rightarrow> (handles s' 10, map_option parent (threads s' 2))
                                | _ \<Rightarrow> (None, None))
        (thread_start_exit 0 demo_moved) = Some (Some None, Some (Some 10))"
  by (simp add: thread_move_assign_def move_assign_body_def move_body_def lock_guard_free unlock_def
      thread_start_exit_def lock_free exit_body_def run_next_def switch_context_def
      current_def demo_moved_def demo_state_def boot_state_def Let_def fun_upd_idem_iff
      fun_upd_twist)

text \<open>
  C7 as stated fails. In \<open>demo_state\<close> thread 1 runs on CPU 0 and handle 10 owns it.
  After the exit part of \<open>thread_start\<close> the pointer of handle 10 is null and the
  \<open>parent\<close> back-link of thread 1 still is handle 10.
\<close>

theorem thread_exit_parent_counterexample:
  "thread_start_exit 0 demo_state = Some (Switched demo_exited)
   \<and> handles demo_exited 10 = Some None
   \<and> map_option parent (threads demo_exited 1) = Some (Some 10)"
  by (simp add: thread_start_exit_def lock_free exit_body_def run_next_def switch_context_def
      current_def demo_exited_def demo_state_def boot_state_def Let_def fun_upd_twist)

text \<open>
  C7 as amended. When the exit part of \<open>thread_start\<close> runs in a thread whose \<open>parent\<close>
  back-link is handle \<open>h\<close> and has switched to the next thread: the pointer of \<open>h\<close> is
  null, the \<open>parent\<close> back-link of the exiting thread still is \<open>h\<close>, the thread is parked
  in \<open>last_free_thread\<close> and the guard is held. The deferred \<open>delete\<close> then runs the
  destructor, which writes null to the pointer of \<open>h\<close> again, and frees the thread.
\<close>

theorem thread_exit_keeps_parent:
  assumes "\<not> guard s" and "current c s = Some t" and "threads s t = Some ti"
    and "parent ti = Some h" and "thread_start_exit c s = Some (Switched s')"
  shows "handles s' h = Some None
       \<and> map_option parent (threads s' t) = Some (Some h)
       \<and> last_free_thread s' = Some t
       \<and> guard s'
       \<and> reclaim s' = Returned (s'\<lparr>handles := (handles s')(h \<mapsto> None),
                                    threads := (threads s')(t := None),
                                    last_free_thread := None\<rparr>)"
proof -
  from assms obtain p where hp: "handles s h = Some p"
    by (auto simp add: thread_start_exit_def lock_free exit_body_def current_def Let_def
        split: option.splits)
  let ?s1 = "s\<lparr>interrupts := (interrupts s)(c := False), guard := True\<rparr>"
  let ?s2 = "(drain_join t (join_thd ti) ?s1)\<lparr>handles := (handles s)(h \<mapsto> None),
               last_free_thread := Some t\<rparr>"
  from assms hp have rn: "run_next Site_exit c ?s2 = Switched s'"
    by (simp add: thread_start_exit_def lock_free exit_body_def current_def Let_def)
  note fr = run_next_frame [OF rn]
  have h': "handles s' h = Some None" using fr(1) by simp
  have l': "last_free_thread s' = Some t" using fr(6) by simp
  have g': "guard s'" using fr(4) by simp
  have "map_option parent (threads s' t) = map_option parent (threads ?s2 t)"
    using fr(9) by simp
  also have "\<dots> = Some (Some h)"
    using assms by (simp add: drain_join_threads)
  finally have p': "map_option parent (threads s' t) = Some (Some h)" .
  then obtain ti' where ti': "threads s' t = Some ti'" "parent ti' = Some h" by auto
  show ?thesis
    using h' l' g' p' reclaim_parked [OF l' ti' h'] by simp
qed

theorem thread_exit_keeps_parent_witness:
  "handles demo_exited 10 = Some None
   \<and> map_option parent (threads demo_exited 1) = Some (Some 10)
   \<and> last_free_thread demo_exited = Some 1
   \<and> guard demo_exited
   \<and> reclaim demo_exited = Returned (demo_exited\<lparr>handles := (handles demo_exited)(10 \<mapsto> None),
                                        threads := (threads demo_exited)(1 := None),
                                        last_free_thread := None\<rparr>)"
proof -
  have ex: "thread_start_exit 0 demo_state = Some (Switched demo_exited)"
    by (simp add: thread_start_exit_def lock_free exit_body_def run_next_def switch_context_def
        current_def demo_exited_def demo_state_def boot_state_def Let_def fun_upd_twist)
  show ?thesis
    using thread_exit_keeps_parent [of demo_state 0 1
        "\<lparr>parent = Some 10, uc = Entry (User_func 0), join_thd = []\<rparr>" 10 demo_exited, OF _ _ _ _ ex]
    by (simp add: demo_state_def boot_state_def current_def)
qed

text \<open>
  C8. In every configuration that an execution reaches from a configuration satisfying the
  invariant:
  \<^item> a thread that has exited and is not freed is the one in \<open>last_free_thread\<close>, so there
    is one such thread at most;
  \<^item> while no CPU is between a switch and the code that follows it, \<open>last_free_thread\<close> is
    null;
  \<^item> the current thread of every CPU is not freed, and is not the one in
    \<open>last_free_thread\<close>;
  \<^item> when the exit part of \<open>thread_start\<close> has switched, the exiting thread is in
    \<open>last_free_thread\<close>, is not freed, the guard is held and the CPU runs another thread;
  \<^item> when the thread switched to has run up to its next switch or to the release of the
    guard, \<open>last_free_thread\<close> is null, the thread that was there is freed, no exited thread
    is left and the current thread of every CPU is not freed;
  \<^item> the exit part of \<open>thread_start\<close>, run with the guard free by a thread whose \<open>parent\<close>
    is null or points at a handle that exists, does switch, provided a thread is there to
    switch to: the ready queue, with \<open>join_thd\<close> of the exiting thread appended, or else the
    idle queue is not empty and its head is not null;
  \<^item> the thread that a CPU has switched to is not an exited one; the deferred \<open>delete\<close> that
    it runs first is defined, that is \<open>last_free_thread\<close> is null or points at a thread that
    is not freed and whose destructor writes to a handle that exists; and unless it resumes
    inside \<open>cv::impl::wait\<close>, where it may block again, it runs up to the release of the
    guard.
\<close>

theorem deferred_free:
  assumes "config_ok cf0" and "trans\<^sup>*\<^sup>* cf0 cf"
  shows "(\<forall>t. exited (state_of cf) t \<longrightarrow> last_free_thread (state_of cf) = Some t)
       \<and> (\<forall>s. cf = Running s \<longrightarrow> last_free_thread s = None)
       \<and> (\<forall>c t. current_thd (state_of cf) c = Some t \<longrightarrow>
             threads (state_of cf) t \<noteq> None \<and> last_free_thread (state_of cf) \<noteq> Some t)
       \<and> (\<forall>c s t s'. cf = Running s \<and> current c s = Some t
             \<and> thread_start_exit c s = Some (Switched s') \<longrightarrow>
             last_free_thread s' = Some t \<and> threads s' t \<noteq> None \<and> exited s' t \<and> guard s'
             \<and> current_thd s' c \<noteq> Some t)
       \<and> (\<forall>c s s'. cf = Pending c s \<and> (resume c s = Returned s' \<or> resume c s = Switched s') \<longrightarrow>
             last_free_thread s' = None
             \<and> (\<forall>t. last_free_thread s = Some t \<longrightarrow> threads s' t = None)
             \<and> (\<forall>t. \<not> exited s' t)
             \<and> (\<forall>c' t. current_thd s' c' = Some t \<longrightarrow> threads s' t \<noteq> None))
       \<and> (\<forall>c s t ti. cf = Running s \<and> \<not> guard s \<and> current c s = Some t \<and> threads s t = Some ti
             \<and> (\<forall>h. parent ti = Some h \<longrightarrow> handles s h \<noteq> None)
             \<and> (ready_queue s @ join_thd ti \<noteq> [] \<or> idle_queue s \<noteq> [])
             \<and> (if ready_queue s @ join_thd ti \<noteq> [] then hd (ready_queue s @ join_thd ti)
                 else hd (idle_queue s)) \<noteq> None \<longrightarrow>
             (\<exists>s'. thread_start_exit c s = Some (Switched s')))
       \<and> (\<forall>c s t ti. cf = Pending c s \<and> current c s = Some t \<and> threads s t = Some ti \<longrightarrow>
             uc ti \<noteq> Saved Site_exit
             \<and> (\<exists>s1. reclaim s = Returned s1)
             \<and> ((\<forall>m. uc ti \<noteq> Saved (Site_cv_wait m)) \<longrightarrow> (\<exists>s'. resume c s = Returned s')))"
proof -
  have ok: "config_ok cf" by (rule reach_config_ok [OF assms(2,1)])
  have sok: "state_ok (state_of cf)" using ok by (cases cf) simp_all
  have p1: "parked1 (state_of cf)" using ok by (cases cf) (simp_all add: parked0_imp_parked1)
  have 1: "\<forall>t. exited (state_of cf) t \<longrightarrow> last_free_thread (state_of cf) = Some t"
    using p1 by (simp add: parked1_def)
  have 2: "\<forall>s. cf = Running s \<longrightarrow> last_free_thread s = None"
    using ok by (auto simp add: parked0_def)
  have 3: "\<forall>c t. current_thd (state_of cf) c = Some t \<longrightarrow>
             threads (state_of cf) t \<noteq> None \<and> last_free_thread (state_of cf) \<noteq> Some t"
    using current_live(1,2) [OF sok] by blast
  have 4: "\<forall>c s t s'. cf = Running s \<and> current c s = Some t
             \<and> thread_start_exit c s = Some (Switched s') \<longrightarrow>
             last_free_thread s' = Some t \<and> threads s' t \<noteq> None \<and> exited s' t \<and> guard s'
             \<and> current_thd s' c \<noteq> Some t"
  proof (intro allI impI, elim conjE)
    fix c s t s'
    assume cf: "cf = Running s" and cur: "current c s = Some t"
      and ex: "thread_start_exit c s = Some (Switched s')"
    from call_exit_switched [OF ex] have eb: "exit_body c (locked c s) = Switched s'" by simp
    have e: "last_free_thread s' = Some t \<and> exited s' t \<and> guard s' = guard (locked c s)"
      by (rule exit_body_effect [OF eb]) (use cur in \<open>simp add: current_def locked_def\<close>)
    have "trans (Running s) (Pending c s')"
      by (rule call_switched [of c Thread_exit]) (use cur ex in simp_all)
    hence "config_ok (Pending c s')" using ok cf trans_config_ok by blast
    hence sok': "state_ok s'" by simp
    have "current_thd s' c \<noteq> Some t"
      using current_live(2) [OF sok', of c t] e by auto
    moreover have "threads s' t \<noteq> None" using e by (auto simp add: exited_def)
    ultimately show "last_free_thread s' = Some t \<and> threads s' t \<noteq> None \<and> exited s' t \<and> guard s'
             \<and> current_thd s' c \<noteq> Some t"
      using e by (simp add: locked_def)
  qed
  have 5: "\<forall>c s s'. cf = Pending c s \<and> (resume c s = Returned s' \<or> resume c s = Switched s') \<longrightarrow>
             last_free_thread s' = None
             \<and> (\<forall>t. last_free_thread s = Some t \<longrightarrow> threads s' t = None)
             \<and> (\<forall>t. \<not> exited s' t)
             \<and> (\<forall>c' t. current_thd s' c' = Some t \<longrightarrow> threads s' t \<noteq> None)"
  proof (intro allI impI, elim conjE)
    fix c s s'
    assume cf: "cf = Pending c s" and "resume c s = Returned s' \<or> resume c s = Switched s'"
    hence r: "result (resume c s) = Some s'" by auto
    have a: "parked0 s'" using resume_parked [OF _ r] p1 cf by simp
    have b: "state_ok s'" using resume_state_ok [OF _ r] sok cf by simp
    have c: "\<forall>t. last_free_thread s = Some t \<longrightarrow> threads s' t = None"
      using resume_dom [OF r] by simp
    have d: "\<forall>c' t. current_thd s' c' = Some t \<longrightarrow> threads s' t \<noteq> None"
      using current_live(1) [OF b] by blast
    show "last_free_thread s' = None
             \<and> (\<forall>t. last_free_thread s = Some t \<longrightarrow> threads s' t = None)
             \<and> (\<forall>t. \<not> exited s' t)
             \<and> (\<forall>c' t. current_thd s' c' = Some t \<longrightarrow> threads s' t \<noteq> None)"
      using a c d by (simp add: parked0_def)
  qed
  have 6: "(\<forall>c s t ti. cf = Running s \<and> \<not> guard s \<and> current c s = Some t \<and> threads s t = Some ti
        \<and> (\<forall>h. parent ti = Some h \<longrightarrow> handles s h \<noteq> None)
        \<and> (ready_queue s @ join_thd ti \<noteq> [] \<or> idle_queue s \<noteq> [])
        \<and> (if ready_queue s @ join_thd ti \<noteq> [] then hd (ready_queue s @ join_thd ti)
            else hd (idle_queue s)) \<noteq> None \<longrightarrow>
        (\<exists>s'. thread_start_exit c s = Some (Switched s')))"
  proof (intro allI impI, elim conjE)
    fix c s t ti
    assume cf: "cf = Running s" and g: "\<not> guard s" and cur: "current c s = Some t"
      and t: "threads s t = Some ti" and par: "\<forall>h. parent ti = Some h \<longrightarrow> handles s h \<noteq> None"
      and ne: "ready_queue s @ join_thd ti \<noteq> [] \<or> idle_queue s \<noteq> []"
      and hd: "(if ready_queue s @ join_thd ti \<noteq> [] then hd (ready_queue s @ join_thd ti)
                 else hd (idle_queue s)) \<noteq> None"
    from hd obtain n where n: "(if ready_queue s @ join_thd ti \<noteq> [] then hd (ready_queue s @ join_thd ti)
                 else hd (idle_queue s)) = Some n" by blast
    have "state_ok (locked c s)" using sok cf by simp
    hence "\<exists>s'. exit_body c (locked c s) = Switched s'"
      by (rule exit_body_defined [where t = t and ti = ti and n = n])
         (use cur t par ne n in \<open>auto simp add: locked_def current_def split: if_splits\<close>)
    thus "\<exists>s'. thread_start_exit c s = Some (Switched s')"
      using g by (simp add: thread_start_exit_def lock_free locked_def)
  qed
  have 7: "(\<forall>c s t ti. cf = Pending c s \<and> current c s = Some t \<and> threads s t = Some ti \<longrightarrow>
        uc ti \<noteq> Saved Site_exit
        \<and> (\<exists>s1. reclaim s = Returned s1)
        \<and> ((\<forall>m. uc ti \<noteq> Saved (Site_cv_wait m)) \<longrightarrow> (\<exists>s'. resume c s = Returned s')))"
  proof (intro allI impI, elim conjE)
    fix c s t ti
    assume cf: "cf = Pending c s" and cur: "current c s = Some t" and t: "threads s t = Some ti"
    have okp: "config_ok (Pending c s)" using ok cf by simp
    note d = resume_defined [OF okp cur t]
    show "uc ti \<noteq> Saved Site_exit
        \<and> (\<exists>s1. reclaim s = Returned s1)
        \<and> ((\<forall>m. uc ti \<noteq> Saved (Site_cv_wait m)) \<longrightarrow> (\<exists>s'. resume c s = Returned s'))"
      using d(1,2,3) by blast
  qed
  from 1 2 3 4 5 6 7 show ?thesis by blast
qed

theorem deferred_free_witness:
  "last_free_thread demo_state = None
   \<and> threads demo_state 1 \<noteq> None
   \<and> last_free_thread demo_exited = Some 1 \<and> threads demo_exited 1 \<noteq> None
   \<and> exited demo_exited 1 \<and> guard demo_exited \<and> current_thd demo_exited 0 \<noteq> Some 1
   \<and> last_free_thread demo_reclaimed = None \<and> threads demo_reclaimed 1 = None
   \<and> threads demo_reclaimed 3 \<noteq> None
   \<and> (\<exists>s'. thread_start_exit 0 demo_state = Some (Switched s'))
   \<and> (\<exists>s'. resume 0 demo_exited = Returned s')"
proof -
  have r: "trans\<^sup>*\<^sup>* (Running demo_state) (Running demo_state)" by simp
  have c: "current 0 demo_state = Some 1" "current_thd demo_state 0 = Some 1"
    by (simp_all add: current_def demo_state_def boot_state_def)
  from deferred_free [OF config_ok_demo r] c demo_exit
  have a: "last_free_thread demo_state = None \<and> threads demo_state 1 \<noteq> None
     \<and> last_free_thread demo_exited = Some 1 \<and> threads demo_exited 1 \<noteq> None
     \<and> exited demo_exited 1 \<and> guard demo_exited \<and> current_thd demo_exited 0 \<noteq> Some 1"
    by (simp del: fun_upd_apply)
  have "trans (Running demo_state) (Pending 0 demo_exited)"
    by (rule call_switched [of 0 Thread_exit]) (simp_all add: c demo_exit)
  hence r2: "trans\<^sup>*\<^sup>* (Running demo_state) (Pending 0 demo_exited)" by (rule r_into_rtranclp)
  have c2: "current_thd demo_reclaimed 0 = Some 3"
    by (simp add: demo_reclaimed_def demo_exited_def demo_state_def boot_state_def)
  note th = deferred_free [OF config_ok_demo r2, THEN conjunct2, THEN conjunct2, THEN conjunct2,
      THEN conjunct2, THEN conjunct1, rule_format]
  from th [where c = 0 and s = demo_exited and s' = demo_reclaimed] a demo_resume c2
  have b: "last_free_thread demo_reclaimed = None \<and> threads demo_reclaimed 1 = None
     \<and> threads demo_reclaimed 3 \<noteq> None"
    by (simp del: fun_upd_apply)
  have c3: "\<not> guard demo_state"
    "threads demo_state 1 = Some \<lparr>parent = Some 10, uc = Entry (User_func 0), join_thd = []\<rparr>"
    "handles demo_state 10 \<noteq> None" "ready_queue demo_state = []" "idle_queue demo_state = [Some 3]"
    by (simp_all add: demo_state_def boot_state_def)
  note th3 = deferred_free [OF config_ok_demo r, THEN conjunct2, THEN conjunct2, THEN conjunct2,
      THEN conjunct2, THEN conjunct2, THEN conjunct1, rule_format]
  from th3 [where c = 0 and s = demo_state and t = 1
      and ti = "\<lparr>parent = Some 10, uc = Entry (User_func 0), join_thd = []\<rparr>"] c c3
  have d: "\<exists>s'. thread_start_exit 0 demo_state = Some (Switched s')" by simp
  have c4: "current 0 demo_exited = Some 3"
    "threads demo_exited 3 = Some \<lparr>parent = None, uc = Saved Site_idle, join_thd = []\<rparr>"
    by (simp_all add: current_def demo_exited_def demo_state_def boot_state_def)
  note th4 = deferred_free [OF config_ok_demo r2, THEN conjunct2, THEN conjunct2, THEN conjunct2,
      THEN conjunct2, THEN conjunct2, THEN conjunct2, rule_format]
  from th4 [where c = 0 and s = demo_exited and t = 3
      and ti = "\<lparr>parent = None, uc = Saved Site_idle, join_thd = []\<rparr>"] c4
  have e: "\<exists>s'. resume 0 demo_exited = Returned s'" by simp
  from a b d e show ?thesis by blast
qed

text \<open>
  C9. The \<open>thread\<close> constructor called with a null function throws
  \<open>std::runtime_error("nullptr function")\<close>; the state after the throw is the state
  before the call with the interrupts of the calling CPU enabled, so nothing was put on a
  queue, no object was created and the guard is free. Called with a user function it
  creates the \<open>thread::impl\<close>, appends it to the ready queue, runs \<open>wakeup_one_cpu\<close>
  once, links the handle and releases the guard.
\<close>

theorem thread_ctor_null_or_user:
  assumes "\<not> guard s"
  shows "(\<exists>s'. thread_ctor h None a c s = Some (Threw (Runtime_error ''nullptr function'') s')
            \<and> s' = s\<lparr>interrupts := (interrupts s)(c := True)\<rparr> \<and> \<not> guard s')
         \<and> (\<exists>s'. thread_ctor h (Some (User_func f)) a c s = Some (Returned s')
            \<and> ready_queue s' = ready_queue s @ [Some a]
            \<and> idle_queue s' = idle_queue s
            \<and> threads s' = (threads s)(a \<mapsto> \<lparr>parent = Some h, uc = Entry (User_func f), join_thd = []\<rparr>)
            \<and> handles s' = (handles s)(h \<mapsto> Some a)
            \<and> (case suspended_queue s of
                  [] \<Rightarrow> suspended_queue s' = [] \<and> ipi_sent s' = ipi_sent s
                | c0 # cs \<Rightarrow> suspended_queue s' = cs \<and> ipi_sent s' = ipi_sent s @ [c0])
            \<and> \<not> guard s')"
  using assms
  by (simp add: thread_ctor_def ctor_body_def impl_ctor_def then_do_def lock_guard_free unlock_def
      wakeup_one_cpu_def Let_def split: list.splits)

theorem thread_ctor_null_or_user_witness:
  "thread_ctor 12 None 4 0 demo_state = Some (Threw (Runtime_error ''nullptr function'') demo_state)
   \<and> (\<exists>s'. thread_ctor 12 (Some (User_func 9)) 4 0 demo_state = Some (Returned s')
        \<and> ready_queue s' = [Some 4] \<and> suspended_queue s' = [] \<and> ipi_sent s' = [1])"
  using thread_ctor_null_or_user [of demo_state 12 4 0 9]
  by (auto simp add: demo_state_def boot_state_def fun_upd_idem_iff)

text \<open>
  C10. \<open>cv::wait\<close> called with a mutex that the calling thread does not own throws
  \<open>std::runtime_error("release not-own")\<close> from \<open>mutex::impl::unlock\<close>. The state after
  the throw is the state before the call with the interrupts of the calling CPU enabled:
  the wait queue of the condition variable and the mutex are unchanged.
\<close>

theorem cv_wait_not_owner:
  assumes "\<not> guard s" and "mutexes s m = Some mi" and "own_thd mi \<noteq> current c s"
  shows "\<exists>s'. cv_wait v m c s = Some (Threw (Runtime_error ''release not-own'') s')
           \<and> s' = s\<lparr>interrupts := (interrupts s)(c := True)\<rparr>
           \<and> cvs s' = cvs s \<and> mutexes s' = mutexes s"
  using assms
  by (simp add: cv_wait_def cv_impl_wait_def then_do_def lock_guard_free mutex_impl_unlock_def
      current_def unlock_def)

theorem cv_wait_not_owner_witness:
  "cv_wait 7 6 0 demo_state = Some (Threw (Runtime_error ''release not-own'') demo_state)"
  using cv_wait_not_owner [of demo_state 6 "\<lparr>own_thd = None, thd_q = []\<rparr>" 0 7]
  by (simp add: demo_state_def boot_state_def current_def fun_upd_idem_iff)

end
